theory Spec2Isabelle
  imports
    Main
    "HOL-Library.Sublist"
    "HOL-Library.AList"
    "HOL-Library.Char_ord"
    "HOL-Library.List_Lexorder"
    "HOL-Library.Multiset"
begin

section \<open>The hook \<open>useSafeOptionsFetcher\<close> of \<open>dist/index.es.js\<close>\<close>

text \<open>
  The development embeds the one source file of the package: the helpers \<open>sortArray\<close>
  and \<open>hasKeyword\<close> and the three closures of the hook, \<open>getOptionsFromAPI\<close>,
  \<open>filterOptionsLocally\<close> and \<open>getOptions\<close>.

  Conventions of the embedding.
  \<^item> JavaScript values are the datatype \<open>jsval\<close>: \<open>undefined\<close>, \<open>null\<close>, booleans,
    integral numbers, strings and plain objects. An object value is a reference
    (an address) together with the list of the object's own enumerable
    properties in insertion order, keys distinct; two objects are the same object
    when their references are equal, whatever their properties. Arrays nested in
    an option, floating point numbers and \<open>NaN\<close> are outside it. An option itself is
    the list of its properties: the code never compares two options.
  \<^item> A string is a list of characters; \<open>toLowerCase\<close> maps the letters \<open>A\<close> to \<open>Z\<close>
    and leaves every other character alone.
  \<^item> \<open>String.prototype.localeCompare\<close> belongs to the host, not to the package; it is
    the field \<open>localeCompare\<close> of the hook's environment.
  \<^item> \<open>Array.prototype.sort\<close> belongs to the host as well. The language fixes its
    result for a consistent comparator only, and the comparator of \<open>sortArray\<close> is
    not consistent on options without label; the model is the algorithm of the V8
    engine (Node, Chromium) for arrays of fewer than 64 elements.
  \<^item> The React state cells \<open>options\<close>, \<open>filteredOptions\<close>, \<open>isLoading\<close> and the two
    refs \<open>searchGuard\<close>, \<open>requestCounter\<close> are the record \<open>hook_state\<close>. Every setter
    of the source stores an absolute value, so the state after a handler is the state
    with the stores applied in order.
  \<^item> Each closure reads the \<open>options\<close> of the render that created it. That captured
    array is the explicit argument \<open>opts\<close>; a caller that uses the functions returned
    by the latest render passes \<open>options s\<close>.
  \<^item> \<open>await APIService(...)\<close> splits \<open>getOptionsFromAPI\<close> in two: the part that runs
    up to the call and yields the suspended \<open>request\<close>, and \<open>getOptionsFromAPI_resume\<close>,
    the continuation run when the promise settles.
  \<^item> An exception is a value: every operation returns the exception it ends with, if
    any, beside the state it leaves.
\<close>

subsection \<open>JavaScript values\<close>

datatype jsval =
    JUndefined
  | JNull
  | JBool bool
  | JNum int
  | JStr string
  | JObj nat "(string \<times> jsval) list"

type_synonym jsobj = "(string \<times> jsval) list"

datatype js_error = TypeError | FetchRejected jsval

text \<open>Property read \<open>obj[k]\<close> (and \<open>obj.k\<close>): \<open>undefined\<close> for a property the object lacks.\<close>

definition get_prop :: "jsobj \<Rightarrow> string \<Rightarrow> jsval" where
  "get_prop obj k = (case map_of obj k of None \<Rightarrow> JUndefined | Some v \<Rightarrow> v)"

text \<open>\<open>ToBoolean\<close>.\<close>

fun truthy :: "jsval \<Rightarrow> bool" where
  "truthy JUndefined = False"
| "truthy JNull = False"
| "truthy (JBool b) = b"
| "truthy (JNum n) = (n \<noteq> 0)"
| "truthy (JStr s) = (s \<noteq> [])"
| "truthy (JObj a fs) = True"

text \<open>\<open>Object.values\<close>: the property values of an object, the one-character strings of
  a string, nothing for a number or a boolean, a \<open>TypeError\<close> for \<open>null\<close> and
  \<open>undefined\<close>.\<close>

fun object_values :: "jsval \<Rightarrow> js_error + jsval list" where
  "object_values (JObj a fs) = Inr (map snd fs)"
| "object_values (JStr s) = Inr (map (\<lambda>c. JStr [c]) s)"
| "object_values (JNum n) = Inr []"
| "object_values (JBool b) = Inr []"
| "object_values JNull = Inl TypeError"
| "object_values JUndefined = Inl TypeError"

text \<open>What a \<open>Map\<close> compares of a key (\<open>SameValueZero\<close>): the value of a primitive, the
  reference of an object. Two values are the same key when their identities are
  equal.\<close>

fun key_identity :: "jsval \<Rightarrow> jsval" where
  "key_identity (JObj a fs) = JObj a []"
| "key_identity v = v"

text \<open>What a value holds, references set aside: two values with the same content
  print the same, property by property.\<close>

primrec content :: "jsval \<Rightarrow> jsval" where
  "content JUndefined = JUndefined"
| "content JNull = JNull"
| "content (JBool b) = JBool b"
| "content (JNum n) = JNum n"
| "content (JStr s) = JStr s"
| "content (JObj a fs) = JObj 0 (map (map_prod id content) fs)"

subsection \<open>Strings\<close>

definition toLowerCase_char :: "char \<Rightarrow> char" where
  "toLowerCase_char c =
     (if CHR ''A'' \<le> c \<and> c \<le> CHR ''Z'' then char_of (of_char c + (32 :: nat)) else c)"

definition toLowerCase :: "string \<Rightarrow> string" where
  "toLowerCase s = map toLowerCase_char s"

text \<open>\<open>s.includes(k)\<close> and \<open>s.startsWith(k)\<close>.\<close>

definition includes_str :: "string \<Rightarrow> string \<Rightarrow> bool" where
  "includes_str s k = sublist k s"

definition startsWith :: "string \<Rightarrow> string \<Rightarrow> bool" where
  "startsWith s k = prefix k s"

text \<open>\<open>Number.prototype.toString\<close> on an integral number: its decimal digits (the
  notation of JavaScript below \<open>10^21\<close>).\<close>

fun digits :: "nat \<Rightarrow> string" where
  "digits n =
     (if n < 10 then [char_of (48 + n)]
      else digits (n div 10) @ [char_of (48 + n mod 10)])"

declare digits.simps [simp del]

definition num_toString :: "int \<Rightarrow> string" where
  "num_toString n = (if n < 0 then CHR ''-'' # digits (nat (- n)) else digits (nat n))"

text \<open>\<open>v.toString()\<close> for a value that is neither \<open>undefined\<close> nor \<open>null\<close>, and the
  coercion \<open>ToString\<close> that a string method applies to its argument.\<close>

fun toString :: "jsval \<Rightarrow> string" where
  "toString (JStr s) = s"
| "toString (JNum n) = num_toString n"
| "toString (JBool b) = (if b then ''true'' else ''false'')"
| "toString (JObj a fs) = ''[object Object]''"
| "toString JUndefined = ''undefined''"
| "toString JNull = ''null''"

subsection \<open>The hook's arguments and its host\<close>

text \<open>\<open>APIService\<close> holds whether the caller passed a function; what the function
  returns reaches the hook as a \<open>response\<close>. \<open>None\<close> is an argument left
  \<open>undefined\<close>.\<close>

record hook_env =
  APIService :: bool
  customKey :: "string option"
  customPayload :: "jsobj option"
  customDataName :: "string option"
  localeCompare :: "string \<Rightarrow> string \<Rightarrow> int"

subsection \<open>\<open>sortArray\<close>\<close>

text \<open>\<open>x.label?.toString()\<close>: \<open>None\<close> is the \<open>undefined\<close> of the short-circuited
  chain.\<close>

definition label_toString :: "jsobj \<Rightarrow> string option" where
  "label_toString x =
     (case get_prop x ''label'' of
        JUndefined \<Rightarrow> None
      | JNull \<Rightarrow> None
      | v \<Rightarrow> Some (toString v))"

text \<open>The comparator \<open>(a, b) => a.label?.toString().localeCompare(b.label?.toString())\<close>.
  The optional chain covers the call of \<open>localeCompare\<close>: with no label in \<open>a\<close>
  the comparator returns \<open>undefined\<close>. With a label in \<open>a\<close> and none in \<open>b\<close> the
  argument \<open>undefined\<close> is coerced to the string \<open>undefined\<close>.\<close>

definition compareFn :: "hook_env \<Rightarrow> jsobj \<Rightarrow> jsobj \<Rightarrow> int option" where
  "compareFn env a b =
     (case label_toString a of
        None \<Rightarrow> None
      | Some sa \<Rightarrow>
          Some (localeCompare env sa
                  (case label_toString b of None \<Rightarrow> toString JUndefined | Some sb \<Rightarrow> sb)))"

text \<open>\<open>Array.prototype.sort\<close> reads the comparator's result as a number; \<open>undefined\<close>
  becomes \<open>NaN\<close>, which counts as \<open>0\<close>.\<close>

definition sort_order :: "hook_env \<Rightarrow> jsobj \<Rightarrow> jsobj \<Rightarrow> int" where
  "sort_order env a b = (case compareFn env a b of None \<Rightarrow> 0 | Some n \<Rightarrow> n)"

text \<open>\<open>Array.prototype.sort\<close> as V8 runs it on an array of fewer than 64 elements
  (\<open>ArrayTimSortImpl\<close> with a minimal run length equal to the length of the array):
  \<^item> \<open>CountAndMakeRun\<close> takes the longest run at the start of the array, strictly
    descending when the second element is put before the first and else
    non-descending, each element compared with the one before it, and reverses
    a descending run;
  \<^item> \<open>BinaryInsertionSort\<close> inserts every further element, the pivot, into the
    sorted part at the place a binary search finds for it: \<open>order =
    comparefn(pivot, a[mid])\<close>, \<open>order < 0\<close> goes left, anything else goes right.
  Longer arrays, whose runs V8 merges, are sorted as one run here; for a
  consistent comparator every stable sort returns the same array.\<close>

fun take_run :: "('a \<Rightarrow> 'a \<Rightarrow> int) \<Rightarrow> bool \<Rightarrow> 'a \<Rightarrow> 'a list \<Rightarrow> 'a list \<times> 'a list" where
  "take_run cmp descending previous [] = ([], [])"
| "take_run cmp descending previous (current # rest) =
     (if (if descending then 0 \<le> cmp current previous else cmp current previous < 0)
      then ([], current # rest)
      else (case take_run cmp descending current rest of
              (streak, others) \<Rightarrow> (current # streak, others)))"

text \<open>The binary search of \<open>BinaryInsertionSort\<close> between \<open>left\<close> and \<open>right\<close>; it is
  called with \<open>right\<close> at most the length of the list, so that every read is in
  range.\<close>

function binary_search :: "('a \<Rightarrow> 'a \<Rightarrow> int) \<Rightarrow> 'a \<Rightarrow> 'a list \<Rightarrow> nat \<Rightarrow> nat \<Rightarrow> nat" where
  "binary_search cmp pivot ys left right =
     (if left < right then
        (if cmp pivot (ys ! (left + (right - left) div 2)) < 0
         then binary_search cmp pivot ys left (left + (right - left) div 2)
         else binary_search cmp pivot ys (left + (right - left) div 2 + 1) right)
      else left)"
  by pat_completeness auto
termination
  by (relation "measure (\<lambda>(cmp, pivot, ys, left, right). right - left)") auto

declare binary_search.simps [simp del]

definition binary_insert :: "('a \<Rightarrow> 'a \<Rightarrow> int) \<Rightarrow> 'a list \<Rightarrow> 'a \<Rightarrow> 'a list" where
  "binary_insert cmp ys pivot =
     (let i = binary_search cmp pivot ys 0 (length ys)
      in take i ys @ pivot # drop i ys)"

fun array_sort :: "('a \<Rightarrow> 'a \<Rightarrow> int) \<Rightarrow> 'a list \<Rightarrow> 'a list" where
  "array_sort cmp [] = []"
| "array_sort cmp [x] = [x]"
| "array_sort cmp (x0 # x1 # rest) =
     (let descending = cmp x1 x0 < 0
      in case take_run cmp descending x1 rest of
           (streak, others) \<Rightarrow>
             foldl (binary_insert cmp)
               (if descending then rev (x0 # x1 # streak) else x0 # x1 # streak)
               others)"

definition sortArray :: "hook_env \<Rightarrow> jsobj list \<Rightarrow> jsobj list" where
  "sortArray env arr = array_sort (sort_order env) arr"

subsection \<open>\<open>hasKeyword\<close>\<close>

text \<open>\<open>hasKeyword(obj = {}, keyword = "")\<close>. The result is used as a filter's verdict
  only, so the model returns its truth value: that of \<open>some(...)\<close> for a non-empty
  keyword, that of \<open>obj\<close> itself for the empty one.\<close>

definition is_string_with :: "string \<Rightarrow> jsval \<Rightarrow> bool" where
  "is_string_with keyword v =
     (case v of JStr s \<Rightarrow> includes_str (toLowerCase s) (toLowerCase keyword) | _ \<Rightarrow> False)"

definition hasKeyword :: "jsval \<Rightarrow> string \<Rightarrow> js_error + bool" where
  "hasKeyword obj0 keyword =
     (let obj = (if obj0 = JUndefined then JObj 0 [] else obj0) in
      if keyword \<noteq> [] then
        (case object_values obj of
           Inl e \<Rightarrow> Inl e
         | Inr vs \<Rightarrow> Inr (list_ex (is_string_with keyword) vs))
      else Inr (truthy obj))"

text \<open>The object a filter hands to \<open>hasKeyword\<close>:
  \<open>customDataName ? ele[customDataName] : {value: ele.value, label: ele.label}\<close>.
  The object literal is a temporary that only \<open>hasKeyword\<close> reads, and
  \<open>hasKeyword\<close> reads no reference; the temporary gets the reference \<open>0\<close>, and so
  does the default \<open>{}\<close> of \<open>hasKeyword\<close>.\<close>

definition inspected :: "hook_env \<Rightarrow> jsobj \<Rightarrow> jsval" where
  "inspected env ele =
     (case customDataName env of
        None \<Rightarrow> JObj 0 [(''value'', get_prop ele ''value''), (''label'', get_prop ele ''label'')]
      | Some n \<Rightarrow>
          if n \<noteq> [] then get_prop ele n
          else JObj 0 [(''value'', get_prop ele ''value''), (''label'', get_prop ele ''label'')])"

text \<open>\<open>Array.prototype.filter\<close> with a callback that may throw: the first exception
  ends the traversal.\<close>

fun array_filter :: "('a \<Rightarrow> js_error + bool) \<Rightarrow> 'a list \<Rightarrow> js_error + 'a list" where
  "array_filter p [] = Inr []"
| "array_filter p (x # xs) =
     (case p x of
        Inl e \<Rightarrow> Inl e
      | Inr b \<Rightarrow>
          (case array_filter p xs of
             Inl e \<Rightarrow> Inl e
           | Inr ys \<Rightarrow> Inr (if b then x # ys else ys)))"

definition filter_by_keyword :: "hook_env \<Rightarrow> string \<Rightarrow> jsobj list \<Rightarrow> js_error + jsobj list" where
  "filter_by_keyword env keyword arr =
     array_filter (\<lambda>ele. hasKeyword (inspected env ele) keyword) arr"

subsection \<open>The state of one hook instance\<close>

text \<open>\<open>searchGuard.current\<close> is \<open>{}\<close> or \<open>{prevKeyword: K, stop: true}\<close>.\<close>

datatype guard = GuardEmpty | GuardStop string

fun guard_stop :: "guard \<Rightarrow> bool" where
  "guard_stop GuardEmpty = False"
| "guard_stop (GuardStop k) = True"

text \<open>\<open>keyword.startsWith(searchGuard.current?.prevKeyword)\<close>; on \<open>{}\<close> the argument is
  \<open>undefined\<close>, coerced to a string.\<close>

fun guard_prefix :: "guard \<Rightarrow> string \<Rightarrow> bool" where
  "guard_prefix GuardEmpty keyword = startsWith keyword (toString JUndefined)"
| "guard_prefix (GuardStop k) keyword = startsWith keyword k"

record hook_state =
  options :: "jsobj list"
  filteredOptions :: "jsobj list"
  isLoading :: bool
  searchGuard :: guard
  requestCounter :: nat

definition initial_state :: hook_state where
  "initial_state =
     \<lparr>options = [], filteredOptions = [], isLoading = False,
      searchGuard = GuardEmpty, requestCounter = 0\<rparr>"

subsection \<open>\<open>getOptionsFromAPI\<close>\<close>

datatype payload = PayloadKeyword string | PayloadObject jsobj

text \<open>\<open>!customPayload ? keyword : {[customKey]: keyword, ...customPayload}\<close>, with
  \<open>customKey = "keyword"\<close> by default.\<close>

definition make_payload :: "hook_env \<Rightarrow> string \<Rightarrow> payload" where
  "make_payload env keyword =
     (case customPayload env of
        None \<Rightarrow> PayloadKeyword keyword
      | Some extra \<Rightarrow>
          PayloadObject
            (fold (\<lambda>(k, v). AList.update k v) extra
               [(case customKey env of None \<Rightarrow> ''keyword'' | Some k \<Rightarrow> k, JStr keyword)]))"

text \<open>A call of \<open>APIService\<close> in flight: what the suspended continuation holds.\<close>

record request =
  req_id :: nat
  req_keyword :: string
  req_options :: "jsobj list"
  req_payload :: payload

datatype response = Fulfilled "jsobj list" | Rejected jsval

text \<open>The last statement of \<open>getOptionsFromAPI\<close>:
  \<open>if (currentRequest === requestCounter.current) setIsLoading(false)\<close>.\<close>

definition finish_request :: "nat \<Rightarrow> hook_state \<Rightarrow> hook_state" where
  "finish_request currentRequest s =
     (if currentRequest = requestCounter s then s\<lparr>isLoading := False\<rparr> else s)"

text \<open>From the entry to the \<open>await\<close>. \<open>Some r\<close> is the call of \<open>APIService\<close> with
  \<open>req_payload r\<close>; \<open>None\<close> says that \<open>APIService\<close> was not called.\<close>

definition getOptionsFromAPI ::
  "hook_env \<Rightarrow> jsobj list \<Rightarrow> hook_state \<Rightarrow> string \<Rightarrow> hook_state \<times> request option" where
  "getOptionsFromAPI env opts s keyword =
     (let s1 = s\<lparr>isLoading := True\<rparr>;
          currentRequest = requestCounter s1 + 1;
          s2 = s1\<lparr>requestCounter := currentRequest\<rparr>
      in if APIService env \<and>
            (\<not> guard_stop (searchGuard s2) \<or> \<not> guard_prefix (searchGuard s2) keyword)
         then (s2, Some \<lparr>req_id = currentRequest, req_keyword = keyword,
                         req_options = opts, req_payload = make_payload env keyword\<rparr>)
         else (finish_request currentRequest s2, None))"

text \<open>The \<open>Map\<close> built from \<open>merged\<close>: a key keeps the place of its first entry and
  the item of its last. The entries are stored under the identity of their key,
  which is all that \<open>Map\<close> compares: equal primitives are one key, and so is one
  object met twice, while two objects with equal properties are two keys.\<close>

definition map_by_value :: "jsobj list \<Rightarrow> (jsval \<times> jsobj) list" where
  "map_by_value merged =
     foldl (\<lambda>m item. AList.update (key_identity (get_prop item ''value'')) item m) [] merged"

text \<open>\<open>Array.from(map.values())\<close>.\<close>

definition unique_by_value :: "jsobj list \<Rightarrow> jsobj list" where
  "unique_by_value merged = map snd (map_by_value merged)"

text \<open>From the \<open>await\<close> to the end, on the state found when the promise settles.\<close>

definition getOptionsFromAPI_resume ::
  "hook_env \<Rightarrow> request \<Rightarrow> response \<Rightarrow> hook_state \<Rightarrow> js_error option \<times> hook_state" where
  "getOptionsFromAPI_resume env r resp s =
     (case resp of
        Rejected reason \<Rightarrow> (Some (FetchRejected reason), s)
      | Fulfilled res \<Rightarrow>
          if req_id r \<noteq> requestCounter s then (None, s)
          else if length res > 0 then
            (let merged = req_options r @ res;
                 unique = unique_by_value merged;
                 sorted = sortArray env unique
             in case filter_by_keyword env (req_keyword r) sorted of
                  Inl e \<Rightarrow> (Some e, s)
                | Inr filtered \<Rightarrow>
                    (None, finish_request (req_id r)
                       (s\<lparr>options := sorted, filteredOptions := filtered,
                          searchGuard := GuardEmpty\<rparr>)))
          else
            (None, finish_request (req_id r)
               (s\<lparr>filteredOptions := [],
                  searchGuard := GuardStop (req_keyword r)\<rparr>)))"

subsection \<open>\<open>filterOptionsLocally\<close> and \<open>getOptions\<close>\<close>

definition filterOptionsLocally ::
  "hook_env \<Rightarrow> jsobj list \<Rightarrow> hook_state \<Rightarrow> string
     \<Rightarrow> js_error option \<times> hook_state \<times> request option" where
  "filterOptionsLocally env opts s keyword =
     (case filter_by_keyword env keyword opts of
        Inl e \<Rightarrow> (Some e, s, None)
      | Inr matched \<Rightarrow>
          if length matched > 0 then
            (None,
             s\<lparr>filteredOptions := matched, isLoading := False, searchGuard := GuardEmpty\<rparr>,
             None)
          else if \<not> guard_stop (searchGuard s) \<or> \<not> guard_prefix (searchGuard s) keyword
          then (None, getOptionsFromAPI env opts s keyword)
          else (None, s, None))"

text \<open>\<open>getOptions(keyword = '')\<close>: \<open>None\<close> is a call without argument.\<close>

definition getOptions ::
  "hook_env \<Rightarrow> jsobj list \<Rightarrow> hook_state \<Rightarrow> string option
     \<Rightarrow> js_error option \<times> hook_state \<times> request option" where
  "getOptions env opts s arg =
     (let keyword = (case arg of None \<Rightarrow> [] | Some k \<Rightarrow> k)
      in if length opts > 0 then filterOptionsLocally env opts s keyword
         else (None, getOptionsFromAPI env opts s keyword))"

subsection \<open>One hook instance and its calls in flight\<close>

text \<open>The caller's side: the hook's state together with the calls of \<open>APIService\<close>
  that have not settled. An event is a call of \<open>getOptions\<close> from the latest render, a
  firing of \<open>debouncedGetOptions\<close>, or the settling of a call in flight.
  \<open>debouncedGetOptions\<close> is built once, \<open>useRef(debounce(...)).current\<close>, so the
  \<open>getOptions\<close> it calls is the one of the first render, whose \<open>options\<close> is the
  initial \<open>[]\<close>; lodash's timer is not modelled, only the firing.\<close>

record system =
  hook :: hook_state
  in_flight :: "request list"

datatype event =
    CallGetOptions "string option"
  | FireDebounced "string option"
  | Settle nat response

definition initial_system :: system where
  "initial_system = \<lparr>hook = initial_state, in_flight = []\<rparr>"

definition after_call ::
  "system \<Rightarrow> js_error option \<times> hook_state \<times> request option \<Rightarrow> system" where
  "after_call sys out =
     (case out of
        (e, s', None) \<Rightarrow> sys\<lparr>hook := s'\<rparr>
      | (e, s', Some r) \<Rightarrow> \<lparr>hook = s', in_flight = in_flight sys @ [r]\<rparr>)"

fun step :: "hook_env \<Rightarrow> system \<Rightarrow> event \<Rightarrow> system" where
  "step env sys (CallGetOptions arg) =
     after_call sys (getOptions env (options (hook sys)) (hook sys) arg)"
| "step env sys (FireDebounced arg) =
     after_call sys (getOptions env [] (hook sys) arg)"
| "step env sys (Settle n resp) =
     (case find (\<lambda>r. req_id r = n) (in_flight sys) of
        None \<Rightarrow> sys
      | Some r \<Rightarrow>
          \<lparr>hook = snd (getOptionsFromAPI_resume env r resp (hook sys)),
           in_flight = filter (\<lambda>r. req_id r \<noteq> n) (in_flight sys)\<rparr>)"

definition run :: "hook_env \<Rightarrow> event list \<Rightarrow> system" where
  "run env evs = foldl (step env) initial_system evs"

subsection \<open>Notions the properties are stated with\<close>

text \<open>The \<open>value\<close> of an option, the key it is under in a \<open>Map\<close>, and the presence of
  its label.\<close>

definition value_of :: "jsobj \<Rightarrow> jsval" where
  "value_of ele = get_prop ele ''value''"

definition key_of :: "jsobj \<Rightarrow> jsval" where
  "key_of ele = key_identity (get_prop ele ''value'')"

definition has_label :: "jsobj \<Rightarrow> bool" where
  "has_label ele = (get_prop ele ''label'' \<noteq> JUndefined \<and> get_prop ele ''label'' \<noteq> JNull)"

text \<open>A comparison of strings is consistent when it orders them totally: what is
  not before is after or equal, what is before is not after or equal, and the
  order is transitive.\<close>

definition consistent_compare :: "(string \<Rightarrow> string \<Rightarrow> int) \<Rightarrow> bool" where
  "consistent_compare lc =
     ((\<forall>x y. 0 \<le> lc x y \<longrightarrow> lc y x \<le> 0) \<and>
      (\<forall>x y. lc x y < 0 \<longrightarrow> 0 < lc y x) \<and>
      (\<forall>x y z. lc x y \<le> 0 \<longrightarrow> lc y z \<le> 0 \<longrightarrow> lc x z \<le> 0))"

text \<open>The same of a comparator of options, on the options of a set.\<close>

definition consistent_on :: "'a set \<Rightarrow> ('a \<Rightarrow> 'a \<Rightarrow> int) \<Rightarrow> bool" where
  "consistent_on A cmp =
     ((\<forall>a\<in>A. \<forall>b\<in>A. 0 \<le> cmp a b \<longrightarrow> cmp b a \<le> 0) \<and>
      (\<forall>a\<in>A. \<forall>b\<in>A. cmp a b < 0 \<longrightarrow> 0 < cmp b a) \<and>
      (\<forall>a\<in>A. \<forall>b\<in>A. \<forall>c\<in>A. cmp a b \<le> 0 \<longrightarrow> cmp b c \<le> 0 \<longrightarrow> cmp a c \<le> 0))"

text \<open>The label an option is ordered by, an absent label being the empty string.\<close>

definition label_or_empty :: "jsobj \<Rightarrow> string" where
  "label_or_empty ele = (case label_toString ele of None \<Rightarrow> [] | Some l \<Rightarrow> l)"

text \<open>Non-descending by label: no option stands before one whose label the host's
  comparison puts strictly before its own.\<close>

definition non_descending :: "hook_env \<Rightarrow> jsobj list \<Rightarrow> bool" where
  "non_descending env arr =
     sorted_wrt (\<lambda>a b. localeCompare env (label_or_empty a) (label_or_empty b) \<le> 0) arr"

text \<open>A response whose options all carry a label.\<close>

fun labelled_event :: "event \<Rightarrow> bool" where
  "labelled_event (Settle n (Fulfilled res)) = list_all has_label res"
| "labelled_event ev = True"

text \<open>Every option of the cache and of the renders that calls in flight were issued
  from carries a label.\<close>

definition system_labelled :: "system \<Rightarrow> bool" where
  "system_labelled sys =
     (list_all has_label (options (hook sys)) \<and>
      list_all (\<lambda>r. list_all has_label (req_options r)) (in_flight sys))"

text \<open>The strings a keyword is looked for in: the string-valued properties of an
  object, the characters of a string.\<close>

fun string_values :: "jsval \<Rightarrow> string list" where
  "string_values (JObj a fs) = concat (map (\<lambda>(k, v). case v of JStr s \<Rightarrow> [s] | _ \<Rightarrow> []) fs)"
| "string_values (JStr s) = map (\<lambda>c. [c]) s"
| "string_values v = []"

text \<open>A case-insensitive substring match of the keyword in one of the strings.\<close>

definition substring_match :: "string \<Rightarrow> string list \<Rightarrow> bool" where
  "substring_match keyword strs =
     list_ex (\<lambda>str. sublist (toLowerCase keyword) (toLowerCase str)) strs"

text \<open>The match among all string-valued fields of an option, and the match among
  the strings of the object the filter inspects.\<close>

definition matches_any_field :: "string \<Rightarrow> jsobj \<Rightarrow> bool" where
  "matches_any_field keyword ele = substring_match keyword (string_values (JObj 0 ele))"

definition matches_inspected :: "hook_env \<Rightarrow> string \<Rightarrow> jsobj \<Rightarrow> bool" where
  "matches_inspected env keyword ele =
     substring_match keyword (string_values (inspected env ele))"

subsection \<open>Concrete hosts, options and histories\<close>

text \<open>A host whose \<open>localeCompare\<close> orders strings by their characters' codes.\<close>

definition codeunit_compare :: "string \<Rightarrow> string \<Rightarrow> int" where
  "codeunit_compare a b = (if a < b then - 1 else if a = b then 0 else 1)"

definition plain_env :: hook_env where
  "plain_env =
     \<lparr>APIService = True, customKey = None, customPayload = None,
      customDataName = None, localeCompare = codeunit_compare\<rparr>"

definition meta_env :: hook_env where
  "meta_env = plain_env\<lparr>customDataName := Some ''meta''\<rparr>"

definition apple :: jsobj where
  "apple = [(''value'', JNum 1), (''label'', JStr ''Apple'')]"

definition banana :: jsobj where
  "banana = [(''value'', JNum 2), (''label'', JStr ''Banana'')]"

definition cherry :: jsobj where
  "cherry = [(''value'', JNum 3), (''label'', JStr ''Cherry'')]"

definition granny :: jsobj where
  "granny = [(''value'', JNum 1), (''label'', JStr ''Granny Smith'')]"

text \<open>An option without label and two with the labels \<open>w\<close> and \<open>v\<close>; two options
  whose values are two objects with the same property; an option with a further
  string field, and three with a field \<open>meta\<close>.\<close>

definition unlabelled :: jsobj where
  "unlabelled = [(''value'', JNum 4)]"

definition option_w :: jsobj where
  "option_w = [(''value'', JNum 5), (''label'', JStr ''w'')]"

definition option_v :: jsobj where
  "option_v = [(''value'', JNum 6), (''label'', JStr ''v'')]"

definition boxed_first :: jsobj where
  "boxed_first = [(''value'', JObj 21 [(''id'', JNum 1)]), (''label'', JStr ''First'')]"

definition boxed_second :: jsobj where
  "boxed_second = [(''value'', JObj 22 [(''id'', JNum 1)]), (''label'', JStr ''Second'')]"

definition fruit_apple :: jsobj where
  "fruit_apple =
     [(''value'', JNum 1), (''label'', JStr ''Apple''), (''category'', JStr ''fruit'')]"

definition apple_meta :: jsobj where
  "apple_meta =
     [(''value'', JNum 1), (''label'', JStr ''Apple''),
      (''meta'', JObj 11 [(''tag'', JStr ''red'')])]"

definition berry_meta :: jsobj where
  "berry_meta =
     [(''value'', JNum 2), (''label'', JStr ''Berry''),
      (''meta'', JObj 12 [(''tag'', JStr ''red'')])]"

definition null_meta :: jsobj where
  "null_meta = [(''value'', JNum 1), (''label'', JStr ''Apple''), (''meta'', JNull)]"

text \<open>Histories: a first fetch that fills the cache; then a lookup \<open>c\<close> that goes to
  the remote source followed, before it settles, by a lookup \<open>ap\<close> that the cache
  answers; and a lookup \<open>ab\<close> whose fetch comes back empty.\<close>

definition filled_history :: "event list" where
  "filled_history =
     [CallGetOptions (Some ''a''), Settle 1 (Fulfilled [apple, banana])]"

definition race_history :: "event list" where
  "race_history =
     filled_history @ [CallGetOptions (Some ''c''), CallGetOptions (Some ''ap'')]"

definition armed_history :: "event list" where
  "armed_history =
     filled_history @ [CallGetOptions (Some ''ab''), Settle 2 (Fulfilled [])]"

text \<open>Two more histories: a first fetch that brings an option without label between
  two labelled ones, and two fetches that bring the two options with an object
  for value.\<close>

definition unlabelled_history :: "event list" where
  "unlabelled_history =
     [CallGetOptions None, Settle 1 (Fulfilled [option_w, unlabelled, option_v])]"

definition boxed_history :: "event list" where
  "boxed_history =
     [CallGetOptions None, Settle 1 (Fulfilled [boxed_first]),
      CallGetOptions (Some ''se''), Settle 2 (Fulfilled [boxed_second])]"

definition armed_state :: hook_state where
  "armed_state =
     \<lparr>options = [apple, banana], filteredOptions = [], isLoading = False,
      searchGuard = GuardStop ''ab'', requestCounter = 2\<rparr>"

text \<open>A call in flight for the keyword \<open>k\<close>, issued as the \<open>n\<close>-th request by a render
  whose \<open>options\<close> is \<open>opts\<close>, and the state that waits for it.\<close>

definition keyword_request :: "nat \<Rightarrow> string \<Rightarrow> jsobj list \<Rightarrow> request" where
  "keyword_request n k opts =
     \<lparr>req_id = n, req_keyword = k, req_options = opts, req_payload = PayloadKeyword k\<rparr>"

definition waiting_state :: "nat \<Rightarrow> jsobj list \<Rightarrow> hook_state" where
  "waiting_state n opts =
     \<lparr>options = opts, filteredOptions = [], isLoading = True,
      searchGuard = GuardEmpty, requestCounter = n\<rparr>"

section \<open>Auxiliary facts\<close>

subsection \<open>Issued requests and stale responses\<close>

lemma getOptionsFromAPI_issued:
  assumes "getOptionsFromAPI env opts s keyword = (s', Some r)"
  shows "req_keyword r = keyword" and "req_options r = opts"
    and "req_payload r = make_payload env keyword"
    and "req_id r = requestCounter s'" and "requestCounter s' = requestCounter s + 1"
    and "isLoading s'" and "APIService env"
    and "options s' = options s" and "filteredOptions s' = filteredOptions s"
    and "searchGuard s' = searchGuard s"
  using assms
  by (auto simp: getOptionsFromAPI_def Let_def finish_request_def split: if_splits)

lemma getOptionsFromAPI_counter:
  "requestCounter (fst (getOptionsFromAPI env opts s keyword)) = requestCounter s + 1"
  by (simp add: getOptionsFromAPI_def Let_def finish_request_def)

lemma getOptions_issued:
  assumes "getOptions env opts s arg = (e, s', Some r)"
  shows "req_keyword r = (case arg of None \<Rightarrow> [] | Some k \<Rightarrow> k)" and "req_options r = opts"
    and "req_payload r = make_payload env (case arg of None \<Rightarrow> [] | Some k \<Rightarrow> k)"
    and "req_id r = requestCounter s'" and "requestCounter s' = requestCounter s + 1"
    and "isLoading s'" and "APIService env" and "e = None"
    and "options s' = options s" and "filteredOptions s' = filteredOptions s"
    and "searchGuard s' = searchGuard s"
  using assms
  by (auto simp: getOptions_def filterOptionsLocally_def Let_def
      split: if_splits sum.splits dest: getOptionsFromAPI_issued)

lemma getOptionsFromAPI_options [simp]:
  "options (fst (getOptionsFromAPI env opts s keyword)) = options s"
  by (simp add: getOptionsFromAPI_def Let_def finish_request_def)

lemma filterOptionsLocally_options [simp]:
  "options (fst (snd (filterOptionsLocally env opts s keyword))) = options s"
  by (simp add: filterOptionsLocally_def split: sum.splits)

lemma getOptions_options [simp]:
  "options (fst (snd (getOptions env opts s arg))) = options s"
  by (simp add: getOptions_def Let_def)

lemma stale_response_discarded:
  "req_id r \<noteq> requestCounter s \<Longrightarrow>
   getOptionsFromAPI_resume env r (Fulfilled res) s = (None, s)"
  by (simp add: getOptionsFromAPI_resume_def)

lemma later_request_supersedes:
  "req_id r \<le> requestCounter s \<Longrightarrow>
   req_id r \<noteq> requestCounter (fst (getOptionsFromAPI env opts s keyword))"
  by (simp add: getOptionsFromAPI_counter)

subsection \<open>The local filter\<close>

lemma array_filter_total:
  "\<forall>x\<in>set xs. p x = Inr (q x) \<Longrightarrow> array_filter p xs = Inr (filter q xs)"
  by (induction xs) auto

lemma array_filter_Inr:
  "array_filter p xs = Inr ys \<Longrightarrow> ys = filter (\<lambda>x. p x = Inr True) xs"
  by (induction xs arbitrary: ys) (auto split: sum.splits)

lemma list_ex_object_strings:
  "list_ex (is_string_with keyword) (map snd fs) =
   substring_match keyword (string_values (JObj a fs))"
  by (induction fs)
     (auto simp: substring_match_def is_string_with_def includes_str_def split: jsval.splits)

lemma list_ex_string_chars:
  "list_ex (is_string_with keyword) (map (\<lambda>c. JStr [c]) s) =
   substring_match keyword (string_values (JStr s))"
  by (induction s) (auto simp: substring_match_def is_string_with_def includes_str_def)

lemma hasKeyword_nonempty:
  assumes "keyword \<noteq> []" and "obj \<noteq> JNull"
  shows "hasKeyword obj keyword = Inr (substring_match keyword (string_values obj))"
proof (cases obj)
  case (JObj a fs)
  then show ?thesis using assms(1) list_ex_object_strings[of keyword fs]
    by (simp add: hasKeyword_def)
next
  case (JStr s)
  then show ?thesis using assms(1) list_ex_string_chars[of keyword s]
    by (simp add: hasKeyword_def)
qed (use assms in \<open>simp_all add: hasKeyword_def substring_match_def\<close>)

lemma hasKeyword_empty:
  "hasKeyword obj [] = Inr (obj = JUndefined \<or> truthy obj)"
  by (cases obj) (simp_all add: hasKeyword_def)

lemma inspected_plain:
  "customDataName env = None \<Longrightarrow>
   inspected env ele = JObj 0 [(''value'', get_prop ele ''value''), (''label'', get_prop ele ''label'')]"
  by (simp add: inspected_def)

lemma filter_by_keyword_nonempty:
  assumes "keyword \<noteq> []" and "\<forall>ele\<in>set arr. inspected env ele \<noteq> JNull"
  shows "filter_by_keyword env keyword arr = Inr (filter (matches_inspected env keyword) arr)"
  unfolding filter_by_keyword_def
  by (rule array_filter_total) (use assms in \<open>simp add: hasKeyword_nonempty matches_inspected_def\<close>)

lemma filter_by_keyword_empty:
  assumes "\<forall>ele\<in>set arr. inspected env ele = JUndefined \<or> truthy (inspected env ele)"
  shows "filter_by_keyword env [] arr = Inr arr"
proof -
  have "filter_by_keyword env [] arr =
        Inr (filter (\<lambda>ele. inspected env ele = JUndefined \<or> truthy (inspected env ele)) arr)"
    unfolding filter_by_keyword_def
    by (rule array_filter_total) (simp add: hasKeyword_empty)
  also have "filter (\<lambda>ele. inspected env ele = JUndefined \<or> truthy (inspected env ele)) arr = arr"
    using assms by (simp add: filter_id_conv)
  finally show ?thesis .
qed

lemma filter_by_keyword_plain:
  assumes "customDataName env = None"
  shows "filter_by_keyword env keyword arr =
           Inr (filter (\<lambda>ele. keyword = [] \<or> matches_inspected env keyword ele) arr)"
proof (cases "keyword = []")
  case True
  have "\<forall>ele\<in>set arr. inspected env ele = JUndefined \<or> truthy (inspected env ele)"
    using assms by (simp add: inspected_plain)
  then show ?thesis using True by (simp add: filter_by_keyword_empty)
next
  case False
  have "\<forall>ele\<in>set arr. inspected env ele \<noteq> JNull"
    using assms by (simp add: inspected_plain)
  with False show ?thesis by (simp add: filter_by_keyword_nonempty)
qed

subsection \<open>The sort returns the elements it was given\<close>

lemma take_run_append:
  "take_run cmp descending previous xs = (streak, others) \<Longrightarrow> streak @ others = xs"
  by (induction xs arbitrary: previous streak others) (auto split: if_splits prod.splits)

lemma mset_binary_insert: "mset (binary_insert cmp ys pivot) = add_mset pivot (mset ys)"
proof -
  have "mset (take i ys) + mset (drop i ys) = mset ys" for i
    by (metis append_take_drop_id mset_append)
  then show ?thesis by (simp add: binary_insert_def Let_def)
qed

lemma mset_foldl_binary_insert:
  "mset (foldl (binary_insert cmp) made others) = mset made + mset others"
  by (induction others arbitrary: made) (simp_all add: mset_binary_insert)

lemma mset_array_sort: "mset (array_sort cmp xs) = mset xs"
proof (induction cmp xs rule: array_sort.induct)
  case (1 cmp)
  show ?case by simp
next
  case (2 cmp x)
  show ?case by simp
next
  case (3 cmp x0 x1 rest)
  obtain streak others where t: "take_run cmp (cmp x1 x0 < 0) x1 rest = (streak, others)"
    by (cases "take_run cmp (cmp x1 x0 < 0) x1 rest") auto
  from take_run_append[OF t] have "mset streak + mset others = mset rest"
    by (metis mset_append)
  with t show ?case
    by (simp add: Let_def mset_foldl_binary_insert add.assoc)
qed

lemma set_array_sort [simp]: "set (array_sort cmp xs) = set xs"
  by (metis mset_array_sort set_mset_mset)

lemma length_array_sort [simp]: "length (array_sort cmp xs) = length xs"
  by (metis mset_array_sort size_mset)

lemma distinct_map_array_sort [simp]:
  "distinct (map f (array_sort cmp xs)) = distinct (map f xs)"
proof -
  have "mset (map f (array_sort cmp xs)) = mset (map f xs)"
    by (simp add: mset_array_sort)
  then show ?thesis by (rule mset_eq_imp_distinct_iff)
qed

lemma set_binary_insert [simp]: "set (binary_insert cmp ys pivot) = insert pivot (set ys)"
  by (metis mset_binary_insert set_mset_add_mset_insert set_mset_mset)

subsection \<open>The sort under a consistent comparator\<close>

lemma consistent_on_anti:
  assumes "consistent_on A cmp" and "a \<in> A" and "b \<in> A" and "\<not> cmp a b < 0"
  shows "cmp b a \<le> 0"
proof -
  have "0 \<le> cmp a b" using assms(4) by simp
  with assms(1-3) show ?thesis unfolding consistent_on_def by blast
qed

lemma consistent_on_strict:
  assumes "consistent_on A cmp" and "a \<in> A" and "b \<in> A" and "cmp a b < 0"
  shows "\<not> cmp b a \<le> 0"
proof -
  have "0 < cmp b a" using assms unfolding consistent_on_def by blast
  then show ?thesis by simp
qed

lemma consistent_on_trans:
  assumes "consistent_on A cmp" and "a \<in> A" and "b \<in> A" and "c \<in> A"
    and "cmp a b \<le> 0" and "cmp b c \<le> 0"
  shows "cmp a c \<le> 0"
  using assms unfolding consistent_on_def by blast

lemma consistent_on_before_le:
  assumes c: "consistent_on A cmp" and "p \<in> A" and "m \<in> A" and "j \<in> A"
    and pm: "cmp p m < 0" and mj: "cmp m j \<le> 0"
  shows "cmp p j < 0"
proof (rule ccontr)
  assume "\<not> cmp p j < 0"
  then have "cmp j p \<le> 0" using c assms(2,4) by (intro consistent_on_anti[of A cmp p j]) auto
  with mj have "cmp m p \<le> 0" using c assms(2-4) consistent_on_trans[of A cmp m j p] by blast
  moreover have "\<not> cmp m p \<le> 0" using c assms(2,3) pm by (rule consistent_on_strict)
  ultimately show False by blast
qed

lemma consistent_on_le_not_before:
  assumes c: "consistent_on A cmp" and "p \<in> A" and "m \<in> A" and "j \<in> A"
    and pm: "\<not> cmp p m < 0" and jm: "cmp j m \<le> 0"
  shows "\<not> cmp p j < 0"
proof
  assume pj: "cmp p j < 0"
  have "cmp m p \<le> 0" using c assms(2,3) pm by (rule consistent_on_anti)
  with jm have "cmp j p \<le> 0" using c assms(2-4) consistent_on_trans[of A cmp j m p] by blast
  moreover have "\<not> cmp j p \<le> 0" using c assms(2,4) pj by (rule consistent_on_strict)
  ultimately show False by blast
qed

lemma take_run_ascending:
  assumes c: "consistent_on A cmp"
  shows "take_run cmp False previous xs = (streak, others) \<Longrightarrow> previous \<in> A \<Longrightarrow> set xs \<subseteq> A \<Longrightarrow>
         sorted_wrt (\<lambda>a b. cmp a b \<le> 0) (previous # streak)"
proof (induction xs arbitrary: previous streak others)
  case Nil
  then show ?case by simp
next
  case (Cons current rest)
  show ?case
  proof (cases "cmp current previous < 0")
    case True
    with Cons.prems(1) show ?thesis by simp
  next
    case False
    obtain st ot where t: "take_run cmp False current rest = (st, ot)"
      by (cases "take_run cmp False current rest") auto
    with False Cons.prems(1) have streak: "streak = current # st" by simp
    have cA: "current \<in> A" and rA: "set rest \<subseteq> A" using Cons.prems(3) by simp_all
    have IH: "sorted_wrt (\<lambda>a b. cmp a b \<le> 0) (current # st)"
      using t cA rA by (rule Cons.IH)
    have stA: "set st \<subseteq> A" using take_run_append[OF t] rA by auto
    have pc: "cmp previous current \<le> 0"
      using c cA Cons.prems(2) False by (rule consistent_on_anti)
    have "cmp previous y \<le> 0" if "y \<in> set st" for y
    proof -
      have "cmp current y \<le> 0" using IH that by simp
      moreover have "y \<in> A" using stA that by blast
      ultimately show ?thesis
        using consistent_on_trans[OF c Cons.prems(2) cA _ pc] by blast
    qed
    with pc IH show ?thesis by (simp add: streak)
  qed
qed

lemma take_run_descending:
  assumes c: "consistent_on A cmp"
  shows "take_run cmp True previous xs = (streak, others) \<Longrightarrow> previous \<in> A \<Longrightarrow> set xs \<subseteq> A \<Longrightarrow>
         sorted_wrt (\<lambda>a b. cmp b a \<le> 0) (previous # streak)"
proof (induction xs arbitrary: previous streak others)
  case Nil
  then show ?case by simp
next
  case (Cons current rest)
  show ?case
  proof (cases "0 \<le> cmp current previous")
    case True
    with Cons.prems(1) show ?thesis by simp
  next
    case False
    obtain st ot where t: "take_run cmp True current rest = (st, ot)"
      by (cases "take_run cmp True current rest") auto
    with False Cons.prems(1) have streak: "streak = current # st" by simp
    have cA: "current \<in> A" and rA: "set rest \<subseteq> A" using Cons.prems(3) by simp_all
    have IH: "sorted_wrt (\<lambda>a b. cmp b a \<le> 0) (current # st)"
      using t cA rA by (rule Cons.IH)
    have stA: "set st \<subseteq> A" using take_run_append[OF t] rA by auto
    have cp: "cmp current previous \<le> 0" using False by simp
    have "cmp y previous \<le> 0" if "y \<in> set st" for y
    proof -
      have "cmp y current \<le> 0" using IH that by simp
      moreover have "y \<in> A" using stA that by blast
      ultimately show ?thesis
        using consistent_on_trans[OF c _ cA Cons.prems(2) _ cp] by blast
    qed
    with cp IH show ?thesis by (simp add: streak)
  qed
qed

lemma binary_search_place:
  assumes c: "consistent_on A cmp" and s: "sorted_wrt (\<lambda>a b. cmp a b \<le> 0) ys"
    and pA: "pivot \<in> A" and yA: "set ys \<subseteq> A"
  shows "left \<le> right \<Longrightarrow> right \<le> length ys \<Longrightarrow>
         (\<forall>j<left. \<not> cmp pivot (ys ! j) < 0) \<Longrightarrow>
         (\<forall>j. right \<le> j \<and> j < length ys \<longrightarrow> cmp pivot (ys ! j) < 0) \<Longrightarrow>
         binary_search cmp pivot ys left right \<le> length ys \<and>
         (\<forall>j<binary_search cmp pivot ys left right. \<not> cmp pivot (ys ! j) < 0) \<and>
         (\<forall>j. binary_search cmp pivot ys left right \<le> j \<and> j < length ys \<longrightarrow>
              cmp pivot (ys ! j) < 0)"
proof (induction "right - left" arbitrary: left right rule: less_induct)
  case less
  show ?case
  proof (cases "left < right")
    case False
    then have "binary_search cmp pivot ys left right = left"
      by (subst binary_search.simps) simp
    moreover have "left = right" using False less.prems(1) by simp
    ultimately show ?thesis using less.prems(2,3,4) by simp
  next
    case True
    let ?mid = "left + (right - left) div 2"
    have mid: "left \<le> ?mid" "?mid < right" using True by simp_all
    then have midlen: "?mid < length ys" using less.prems(2) by simp
    then have midA: "ys ! ?mid \<in> A" using yA nth_mem by blast
    show ?thesis
    proof (cases "cmp pivot (ys ! ?mid) < 0")
      case before: True
      have eq: "binary_search cmp pivot ys left right = binary_search cmp pivot ys left ?mid"
        by (subst binary_search.simps) (simp add: True before)
      have hi: "\<forall>j. ?mid \<le> j \<and> j < length ys \<longrightarrow> cmp pivot (ys ! j) < 0"
      proof (intro allI impI)
        fix j assume j: "?mid \<le> j \<and> j < length ys"
        show "cmp pivot (ys ! j) < 0"
        proof (cases "j = ?mid")
          case True
          then show ?thesis using before by simp
        next
          case False
          then have "?mid < j" using j by simp
          then have "cmp (ys ! ?mid) (ys ! j) \<le> 0"
            using sorted_wrt_nth_less[OF s, of ?mid j] j by simp
          moreover have "ys ! j \<in> A" using yA j nth_mem by blast
          ultimately show ?thesis
            using consistent_on_before_le[OF c pA midA _ before] by blast
        qed
      qed
      have less': "?mid - left < right - left" using mid by simp
      have "?mid \<le> length ys" using midlen by simp
      from less.hyps[OF less' mid(1) this less.prems(3) hi]
      show ?thesis unfolding eq .
    next
      case notbefore: False
      have eq: "binary_search cmp pivot ys left right =
                binary_search cmp pivot ys (?mid + 1) right"
        by (subst binary_search.simps) (simp add: True notbefore)
      have lo: "\<forall>j<?mid + 1. \<not> cmp pivot (ys ! j) < 0"
      proof (intro allI impI)
        fix j assume j: "j < ?mid + 1"
        show "\<not> cmp pivot (ys ! j) < 0"
        proof (cases "j = ?mid")
          case True
          then show ?thesis using notbefore by simp
        next
          case False
          then have jm: "j < ?mid" using j by simp
          then have "cmp (ys ! j) (ys ! ?mid) \<le> 0"
            using sorted_wrt_nth_less[OF s, of j ?mid] midlen by simp
          moreover have "ys ! j \<in> A" using yA jm midlen nth_mem[of j ys] by auto
          ultimately show ?thesis
            using consistent_on_le_not_before[OF c pA midA _ notbefore] by blast
        qed
      qed
      have less': "right - (?mid + 1) < right - left" using mid by simp
      have le': "?mid + 1 \<le> right" using mid by simp
      from less.hyps[OF less' le' less.prems(2) lo less.prems(4)]
      show ?thesis unfolding eq .
    qed
  qed
qed

lemma sorted_binary_insert:
  assumes c: "consistent_on A cmp" and s: "sorted_wrt (\<lambda>a b. cmp a b \<le> 0) ys"
    and pA: "pivot \<in> A" and yA: "set ys \<subseteq> A"
  shows "sorted_wrt (\<lambda>a b. cmp a b \<le> 0) (binary_insert cmp ys pivot)"
proof -
  let ?i = "binary_search cmp pivot ys 0 (length ys)"
  have place: "?i \<le> length ys \<and> (\<forall>j<?i. \<not> cmp pivot (ys ! j) < 0) \<and>
               (\<forall>j. ?i \<le> j \<and> j < length ys \<longrightarrow> cmp pivot (ys ! j) < 0)"
    by (rule binary_search_place[OF c s pA yA]) simp_all
  have split: "sorted_wrt (\<lambda>a b. cmp a b \<le> 0) (take ?i ys @ drop ?i ys)"
    using s by simp
  have before: "cmp a pivot \<le> 0" if "a \<in> set (take ?i ys)" for a
  proof -
    from that obtain j where j: "j < length (take ?i ys)" and a: "take ?i ys ! j = a"
      unfolding in_set_conv_nth by blast
    then have ji: "j < ?i" and jl: "j < length ys" by simp_all
    then have a': "a = ys ! j" using a by simp
    have "\<not> cmp pivot a < 0" using place ji a' by blast
    moreover have "a \<in> A" using yA jl a' nth_mem by blast
    ultimately show ?thesis using consistent_on_anti[OF c pA] by blast
  qed
  have after: "cmp pivot b \<le> 0" if "b \<in> set (drop ?i ys)" for b
  proof -
    from that obtain k where k: "k < length (drop ?i ys)" and b: "drop ?i ys ! k = b"
      unfolding in_set_conv_nth by blast
    then have "?i + k < length ys" and "b = ys ! (?i + k)" by auto
    moreover have "?i \<le> ?i + k" by simp
    ultimately have "cmp pivot b < 0" using place by blast
    then show ?thesis by simp
  qed
  have "sorted_wrt (\<lambda>a b. cmp a b \<le> 0) (take ?i ys @ pivot # drop ?i ys)"
    unfolding sorted_wrt_append
    using split before after unfolding sorted_wrt_append by auto
  then show ?thesis by (simp add: binary_insert_def Let_def)
qed

lemma sorted_foldl_binary_insert:
  assumes c: "consistent_on A cmp"
  shows "sorted_wrt (\<lambda>a b. cmp a b \<le> 0) made \<Longrightarrow> set made \<subseteq> A \<Longrightarrow> set others \<subseteq> A \<Longrightarrow>
         sorted_wrt (\<lambda>a b. cmp a b \<le> 0) (foldl (binary_insert cmp) made others)"
proof (induction others arbitrary: made)
  case Nil
  then show ?case by simp
next
  case (Cons pivot others)
  have pA: "pivot \<in> A" and oA: "set others \<subseteq> A" using Cons.prems(3) by simp_all
  have "sorted_wrt (\<lambda>a b. cmp a b \<le> 0) (binary_insert cmp made pivot)"
    using c Cons.prems(1) pA Cons.prems(2) by (rule sorted_binary_insert)
  moreover have "set (binary_insert cmp made pivot) \<subseteq> A"
    using pA Cons.prems(2) by simp
  ultimately have "sorted_wrt (\<lambda>a b. cmp a b \<le> 0)
                     (foldl (binary_insert cmp) (binary_insert cmp made pivot) others)"
    using oA by (rule Cons.IH)
  then show ?case by simp
qed

lemma sorted_array_sort:
  assumes c: "consistent_on A cmp" and xA: "set xs \<subseteq> A"
  shows "sorted_wrt (\<lambda>a b. cmp a b \<le> 0) (array_sort cmp xs)"
proof (cases xs)
  case Nil
  then show ?thesis by simp
next
  case (Cons x0 tl)
  show ?thesis
  proof (cases tl)
    case Nil
    with Cons show ?thesis by simp
  next
    case (Cons x1 rest)
    note xs = \<open>xs = x0 # tl\<close> Cons
    have A0: "x0 \<in> A" and A1: "x1 \<in> A" and Ar: "set rest \<subseteq> A" using xA xs by simp_all
    obtain streak others where t: "take_run cmp (cmp x1 x0 < 0) x1 rest = (streak, others)"
      by (cases "take_run cmp (cmp x1 x0 < 0) x1 rest") auto
    have parts: "streak @ others = rest" by (rule take_run_append[OF t])
    then have As: "set streak \<subseteq> A" and Ao: "set others \<subseteq> A" using Ar by auto
    let ?made = "if cmp x1 x0 < 0 then rev (x0 # x1 # streak) else x0 # x1 # streak"
    have madeA: "set ?made \<subseteq> A" using A0 A1 As by auto
    have made: "sorted_wrt (\<lambda>a b. cmp a b \<le> 0) ?made"
    proof (cases "cmp x1 x0 < 0")
      case True
      then have t': "take_run cmp True x1 rest = (streak, others)" using t by simp
      have d: "sorted_wrt (\<lambda>a b. cmp b a \<le> 0) (x1 # streak)"
        using t' A1 Ar by (rule take_run_descending[OF c])
      have x10: "cmp x1 x0 \<le> 0" using True by simp
      have "cmp y x0 \<le> 0" if "y \<in> set streak" for y
      proof -
        have "cmp y x1 \<le> 0" using d that by simp
        moreover have "y \<in> A" using As that by blast
        ultimately show ?thesis using consistent_on_trans[OF c _ A1 A0 _ x10] by blast
      qed
      with d x10 have "sorted_wrt (\<lambda>a b. cmp b a \<le> 0) (x0 # x1 # streak)" by simp
      then have "sorted_wrt (\<lambda>a b. cmp a b \<le> 0) (rev (x0 # x1 # streak))"
        unfolding sorted_wrt_rev .
      with True show ?thesis by simp
    next
      case False
      then have t': "take_run cmp False x1 rest = (streak, others)" using t by simp
      have a: "sorted_wrt (\<lambda>a b. cmp a b \<le> 0) (x1 # streak)"
        using t' A1 Ar by (rule take_run_ascending[OF c])
      have x01: "cmp x0 x1 \<le> 0" using c A1 A0 False by (rule consistent_on_anti)
      have "cmp x0 y \<le> 0" if "y \<in> set streak" for y
      proof -
        have "cmp x1 y \<le> 0" using a that by simp
        moreover have "y \<in> A" using As that by blast
        ultimately show ?thesis using consistent_on_trans[OF c A0 A1 _ x01] by blast
      qed
      with a x01 False show ?thesis by simp
    qed
    have "sorted_wrt (\<lambda>a b. cmp a b \<le> 0) (foldl (binary_insert cmp) ?made others)"
      using made madeA Ao by (rule sorted_foldl_binary_insert[OF c])
    then show ?thesis using t by (simp add: xs Let_def)
  qed
qed

subsection \<open>The comparator of \<open>sortArray\<close>\<close>

text \<open>On options that carry a label the comparator is the host's comparison of the
  labels, and \<open>sortArray\<close> sorts. The last fact is what the comparator returns
  when a label is absent.\<close>

lemma sort_order_labelled:
  assumes "has_label a" and "has_label b"
  shows "sort_order env a b = localeCompare env (label_or_empty a) (label_or_empty b)"
proof -
  have "label_toString a \<noteq> None"
    using assms(1) by (cases "get_prop a ''label''") (simp_all add: label_toString_def has_label_def)
  moreover have "label_toString b \<noteq> None"
    using assms(2) by (cases "get_prop b ''label''") (simp_all add: label_toString_def has_label_def)
  ultimately show ?thesis
    by (auto simp: sort_order_def compareFn_def label_or_empty_def)
qed

lemma sort_order_consistent:
  assumes c: "consistent_compare (localeCompare env)"
  shows "consistent_on {e. has_label e} (sort_order env)"
proof -
  have anti: "0 \<le> localeCompare env x y \<Longrightarrow> localeCompare env y x \<le> 0" for x y
    using c unfolding consistent_compare_def by blast
  have strict: "localeCompare env x y < 0 \<Longrightarrow> 0 < localeCompare env y x" for x y
    using c unfolding consistent_compare_def by blast
  have trans: "localeCompare env x y \<le> 0 \<Longrightarrow> localeCompare env y z \<le> 0 \<Longrightarrow>
               localeCompare env x z \<le> 0" for x y z
    using c unfolding consistent_compare_def by blast
  show ?thesis
    unfolding consistent_on_def
  proof (intro conjI ballI impI)
    fix a b assume "a \<in> {e. has_label e}" "b \<in> {e. has_label e}" "0 \<le> sort_order env a b"
    then show "sort_order env b a \<le> 0"
      using anti[of "label_or_empty a" "label_or_empty b"] by (simp add: sort_order_labelled)
  next
    fix a b assume "a \<in> {e. has_label e}" "b \<in> {e. has_label e}" "sort_order env a b < 0"
    then show "0 < sort_order env b a"
      using strict[of "label_or_empty a" "label_or_empty b"] by (simp add: sort_order_labelled)
  next
    fix a b c
    assume "a \<in> {e. has_label e}" "b \<in> {e. has_label e}" "c \<in> {e. has_label e}"
      "sort_order env a b \<le> 0" "sort_order env b c \<le> 0"
    then show "sort_order env a c \<le> 0"
      using trans[of "label_or_empty a" "label_or_empty b" "label_or_empty c"]
      by (simp add: sort_order_labelled)
  qed
qed

lemma non_descending_sortArray:
  assumes c: "consistent_compare (localeCompare env)" and l: "list_all has_label arr"
  shows "non_descending env (sortArray env arr)"
proof -
  have sub: "set arr \<subseteq> {e. has_label e}" using l by (auto simp: list_all_iff)
  have "sorted_wrt (\<lambda>a b. sort_order env a b \<le> 0) (array_sort (sort_order env) arr)"
    using sort_order_consistent[OF c] sub by (rule sorted_array_sort)
  then have "sorted_wrt
       (\<lambda>a b. localeCompare env (label_or_empty a) (label_or_empty b) \<le> 0)
       (array_sort (sort_order env) arr)"
  proof (rule sorted_wrt_mono_rel [rotated])
    fix a b assume "a \<in> set (array_sort (sort_order env) arr)"
      and "b \<in> set (array_sort (sort_order env) arr)" and le: "sort_order env a b \<le> 0"
    then have "has_label a" "has_label b" using sub by auto
    then show "localeCompare env (label_or_empty a) (label_or_empty b) \<le> 0"
      using le by (simp add: sort_order_labelled)
  qed
  then show ?thesis by (simp add: non_descending_def sortArray_def)
qed

lemma consistent_codeunit: "consistent_compare (localeCompare plain_env)"
  by (auto simp: consistent_compare_def codeunit_compare_def plain_env_def split: if_splits)

lemma comparator_on_absent_label:
  "(\<not> has_label a \<longrightarrow> compareFn env a b = None \<and> sort_order env a b = 0) \<and>
   (has_label a \<and> \<not> has_label b \<longrightarrow>
      sort_order env a b =
        localeCompare env (toString (get_prop a ''label'')) ''undefined'') \<and>
   mset (sortArray env arr) = mset arr"
proof -
  have "compareFn env a b = None \<and> sort_order env a b = 0" if "\<not> has_label a"
    using that by (auto simp: has_label_def label_toString_def compareFn_def sort_order_def)
  moreover have "sort_order env a b =
        localeCompare env (toString (get_prop a ''label'')) ''undefined''"
    if "has_label a" "\<not> has_label b"
  proof -
    have "label_toString a = Some (toString (get_prop a ''label''))"
      using that(1) by (cases "get_prop a ''label''") (simp_all add: label_toString_def has_label_def)
    moreover have "label_toString b = None"
      using that(2) by (auto simp: label_toString_def has_label_def)
    ultimately show ?thesis by (simp add: sort_order_def compareFn_def)
  qed
  ultimately show ?thesis by (simp add: sortArray_def mset_array_sort)
qed

subsection \<open>Deduplication\<close>

lemma set_update_subset: "set (AList.update k v al) \<subseteq> insert (k, v) (set al)"
  by (induction al) auto

lemma map_by_value_Nil [simp]: "map_by_value [] = []"
  by (simp add: map_by_value_def)

lemma map_by_value_snoc [simp]:
  "map_by_value (xs @ [x]) = AList.update (key_of x) x (map_by_value xs)"
  by (simp add: map_by_value_def key_of_def)

lemma map_by_value_distinct: "distinct (map fst (map_by_value xs))"
  by (induction xs rule: rev_induct) (simp_all add: distinct_update)

lemma map_by_value_entries:
  "(k, item) \<in> set (map_by_value xs) \<Longrightarrow> key_of item = k \<and> item \<in> set xs"
proof (induction xs rule: rev_induct)
  case Nil
  then show ?case by simp
next
  case (snoc x xs)
  from snoc.prems have "(k, item) = (key_of x, x) \<or> (k, item) \<in> set (map_by_value xs)"
    using set_update_subset[of "key_of x" x "map_by_value xs"] by auto
  then show ?case using snoc.IH by auto
qed

lemma map_by_value_map_of:
  "map_of (map_by_value xs) k =
     (if filter (\<lambda>e. key_of e = k) xs = [] then None
      else Some (last (filter (\<lambda>e. key_of e = k) xs)))"
  by (induction xs rule: rev_induct) (simp_all add: update_conv')

lemma unique_by_value_values: "unique_by_value merged = map snd (map_by_value merged)"
  by (simp add: unique_by_value_def)

lemma map_key_of_unique: "map key_of (unique_by_value merged) = map fst (map_by_value merged)"
proof -
  have "key_of (snd p) = fst p" if "p \<in> set (map_by_value merged)" for p
    using map_by_value_entries[of "fst p" "snd p" merged] that by simp
  then show ?thesis by (simp add: unique_by_value_values)
qed

lemma distinct_unique_by_value: "distinct (map key_of (unique_by_value merged))"
  by (simp add: map_key_of_unique map_by_value_distinct)

lemma set_unique_by_value_subset: "set (unique_by_value merged) \<subseteq> set merged"
proof
  fix x assume "x \<in> set (unique_by_value merged)"
  then obtain k where "(k, x) \<in> set (map_by_value merged)"
    by (auto simp: unique_by_value_values)
  then show "x \<in> set merged" using map_by_value_entries by blast
qed

lemma last_in_unique_by_value:
  assumes "x \<in> set merged"
  shows "last (filter (\<lambda>e. key_of e = key_of x) merged) \<in> set (unique_by_value merged)"
proof -
  let ?l = "last (filter (\<lambda>e. key_of e = key_of x) merged)"
  from assms have ne: "filter (\<lambda>e. key_of e = key_of x) merged \<noteq> []"
    by (auto simp: filter_empty_conv)
  then have "map_of (map_by_value merged) (key_of x) = Some ?l"
    by (simp add: map_by_value_map_of)
  then have "(key_of x, ?l) \<in> set (map_by_value merged)"
    by (rule map_of_SomeD)
  then have "snd (key_of x, ?l) \<in> snd ` set (map_by_value merged)"
    by (rule imageI)
  then show ?thesis by (simp add: unique_by_value_values)
qed

lemma distinct_key_filter:
  assumes "distinct (map f xs)" and "x \<in> set xs"
  shows "filter (\<lambda>e. f e = f x) xs = [x]"
  using assms
proof (induction xs)
  case Nil
  then show ?case by simp
next
  case (Cons y ys)
  show ?case
  proof (cases "y = x")
    case True
    have "f e \<noteq> f x" if "e \<in> set ys" for e
      using that True Cons.prems(1) by (metis distinct.simps(2) imageI list.simps(9) list.set_map)
    then have "filter (\<lambda>e. f e = f x) ys = []"
      by (simp add: filter_empty_conv)
    with True show ?thesis by simp
  next
    case False
    then have "x \<in> set ys" using Cons.prems(2) by simp
    moreover have "distinct (map f ys)" using Cons.prems(1) by simp
    ultimately have "filter (\<lambda>e. f e = f x) ys = [x]" by (rule Cons.IH[rotated])
    moreover have "f y \<noteq> f x"
      using \<open>x \<in> set ys\<close> Cons.prems(1) by (metis distinct.simps(2) imageI list.simps(9) list.set_map)
    ultimately show ?thesis by simp
  qed
qed

lemma merged_options_entry:
  assumes "x \<in> set merged"
  shows "filter (\<lambda>e. key_of e = key_of x) (sortArray env (unique_by_value merged)) =
           [last (filter (\<lambda>e. key_of e = key_of x) merged)]"
proof -
  let ?l = "last (filter (\<lambda>e. key_of e = key_of x) merged)"
  from assms have "filter (\<lambda>e. key_of e = key_of x) merged \<noteq> []"
    by (auto simp: filter_empty_conv)
  then have "?l \<in> set (filter (\<lambda>e. key_of e = key_of x) merged)"
    by (rule last_in_set)
  then have key: "key_of ?l = key_of x" by simp
  have d: "distinct (map key_of (sortArray env (unique_by_value merged)))"
    by (simp add: sortArray_def distinct_unique_by_value)
  have m: "?l \<in> set (sortArray env (unique_by_value merged))"
    by (simp add: sortArray_def last_in_unique_by_value[OF assms])
  have "filter (\<lambda>e. key_of e = key_of ?l) (sortArray env (unique_by_value merged)) = [?l]"
    using d m by (rule distinct_key_filter)
  then show ?thesis by (simp only: key)
qed

lemma same_key_primitive:
  assumes "\<forall>a fs. value_of x \<noteq> JObj a fs"
  shows "(key_of e = key_of x) = (value_of e = value_of x)"
  using assms
  by (cases "value_of x"; cases "value_of e") (auto simp: key_of_def value_of_def)

subsection \<open>A response that is merged\<close>

text \<open>Without \<open>customDataName\<close> the filter cannot throw, and a response that is not
  stale and not empty is always merged (\<open>resume_merges_plain\<close>).\<close>

lemma resume_merged:
  assumes "req_id r = requestCounter s" and "res \<noteq> []"
    and "getOptionsFromAPI_resume env r (Fulfilled res) s = (None, s')"
  shows "filter_by_keyword env (req_keyword r)
           (sortArray env (unique_by_value (req_options r @ res))) = Inr (filteredOptions s')"
    and "s' = s\<lparr>options := sortArray env (unique_by_value (req_options r @ res)),
               filteredOptions := filteredOptions s', isLoading := False,
               searchGuard := GuardEmpty\<rparr>"
  using assms
  by (auto simp: getOptionsFromAPI_resume_def finish_request_def Let_def split: sum.splits)

lemma resume_options:
  "options (snd (getOptionsFromAPI_resume env r resp s)) = options s \<or>
   (\<exists>res. resp = Fulfilled res \<and>
      options (snd (getOptionsFromAPI_resume env r resp s)) =
        sortArray env (unique_by_value (req_options r @ res)))"
  by (cases resp)
     (auto simp: getOptionsFromAPI_resume_def finish_request_def Let_def split: sum.splits)

lemma resume_merges_plain:
  assumes "customDataName env = None" and "req_id r = requestCounter s" and "res \<noteq> []"
  shows "fst (getOptionsFromAPI_resume env r (Fulfilled res) s) = None \<and>
         options (snd (getOptionsFromAPI_resume env r (Fulfilled res) s)) =
           sortArray env (unique_by_value (req_options r @ res))"
  using assms(2,3)
  by (simp add: getOptionsFromAPI_resume_def Let_def filter_by_keyword_plain[OF assms(1)]
      finish_request_def)

subsection \<open>The cache along a history\<close>

text \<open>As long as every option of every response carries a label, \<open>options\<close> is
  non-descending by label after every event.\<close>

lemma call_preserves:
  assumes "system_labelled sys" and "list_all has_label opts"
  shows "system_labelled (after_call sys (getOptions env opts (hook sys) arg)) \<and>
         options (hook (after_call sys (getOptions env opts (hook sys) arg))) = options (hook sys)"
proof -
  obtain e s' r where out: "getOptions env opts (hook sys) arg = (e, s', r)"
    by (cases "getOptions env opts (hook sys) arg") auto
  have o: "options s' = options (hook sys)"
    using getOptions_options[of env opts "hook sys" arg] out by simp
  have "list_all has_label (req_options q)" if "r = Some q" for q
    using getOptions_issued(2)[of env opts "hook sys" arg e s' q] out that assms(2) by simp
  then show ?thesis
    using assms(1) o unfolding out
    by (cases r) (auto simp: system_labelled_def after_call_def list_all_iff)
qed

lemma step_preserves:
  assumes c: "consistent_compare (localeCompare env)"
    and ev: "labelled_event ev"
    and l: "system_labelled sys"
    and s: "non_descending env (options (hook sys))"
  shows "system_labelled (step env sys ev) \<and> non_descending env (options (hook (step env sys ev)))"
proof (cases ev)
  case (CallGetOptions arg)
  have "list_all has_label (options (hook sys))" using l by (simp add: system_labelled_def)
  from call_preserves[OF l this, of env arg] s show ?thesis
    by (simp add: CallGetOptions)
next
  case (FireDebounced arg)
  have "list_all has_label ([] :: jsobj list)" by simp
  from call_preserves[OF l this, of env arg] s show ?thesis
    by (simp add: FireDebounced)
next
  case (Settle n resp)
  show ?thesis
  proof (cases "find (\<lambda>r. req_id r = n) (in_flight sys)")
    case None
    then show ?thesis using l s by (simp add: Settle)
  next
    case (Some r)
    then have "r \<in> set (in_flight sys)"
      by (auto simp: find_Some_iff)
    then have lr: "list_all has_label (req_options r)"
      using l by (simp add: system_labelled_def list_all_iff)
    let ?s' = "snd (getOptionsFromAPI_resume env r resp (hook sys))"
    have rest: "list_all (\<lambda>r. list_all has_label (req_options r))
                  (filter (\<lambda>r. req_id r \<noteq> n) (in_flight sys))"
      using l by (auto simp: system_labelled_def list_all_iff)
    have "list_all has_label (options ?s') \<and> non_descending env (options ?s')"
      using resume_options[of env r resp "hook sys"]
    proof
      assume "options ?s' = options (hook sys)"
      then show ?thesis using l s by (simp add: system_labelled_def)
    next
      assume "\<exists>res. resp = Fulfilled res \<and>
                options ?s' = sortArray env (unique_by_value (req_options r @ res))"
      then obtain res where resp: "resp = Fulfilled res"
        and o: "options ?s' = sortArray env (unique_by_value (req_options r @ res))"
        by blast
      have "list_all has_label res" using ev by (simp add: Settle resp)
      then have "list_all has_label (req_options r @ res)" using lr by simp
      then have u: "list_all has_label (unique_by_value (req_options r @ res))"
        using set_unique_by_value_subset[of "req_options r @ res"]
        unfolding list_all_iff by blast
      then have "list_all has_label (sortArray env (unique_by_value (req_options r @ res)))"
        by (simp add: list_all_iff sortArray_def)
      moreover have "non_descending env (sortArray env (unique_by_value (req_options r @ res)))"
        using c u by (rule non_descending_sortArray)
      ultimately show ?thesis by (simp add: o)
    qed
    then show ?thesis using rest by (simp add: Settle Some system_labelled_def)
  qed
qed

lemma run_snoc: "run env (evs @ [ev]) = step env (run env evs) ev"
  by (simp add: run_def)

lemma run_preserves:
  assumes c: "consistent_compare (localeCompare env)"
  shows "list_all labelled_event evs \<Longrightarrow>
         system_labelled (run env evs) \<and> non_descending env (options (hook (run env evs)))"
proof (induction evs rule: rev_induct)
  case Nil
  show ?case
    by (simp add: run_def initial_system_def initial_state_def system_labelled_def
        non_descending_def)
next
  case (snoc ev evs)
  then have "labelled_event ev"
    and IH: "system_labelled (run env evs) \<and> non_descending env (options (hook (run env evs)))"
    by simp_all
  then show ?case unfolding run_snoc using step_preserves[OF c] by blast
qed

lemma labelled_options_stay_sorted:
  assumes "consistent_compare (localeCompare env)" and "list_all labelled_event evs"
  shows "non_descending env (options (hook (run env evs)))"
  using run_preserves[OF assms] by simp

lemma filled_run:
  "run plain_env filled_history =
     \<lparr>hook = \<lparr>options = [apple, banana], filteredOptions = [apple, banana], isLoading = False,
              searchGuard = GuardEmpty, requestCounter = 1\<rparr>,
      in_flight = []\<rparr>"
  by code_simp

lemma armed_run: "run plain_env armed_history = \<lparr>hook = armed_state, in_flight = []\<rparr>"
  by code_simp

section \<open>The claims\<close>

text \<open>
  Claim C1 (last issued wins). A response to a lookup \<open>A\<close> whose call was in flight
  when a lookup \<open>B\<close> was issued must alter none of \<open>options\<close>, \<open>filteredOptions\<close>,
  \<open>isLoading\<close>, whether the cache or the remote source answers \<open>B\<close>.

  When \<open>B\<close> reaches \<open>getOptionsFromAPI\<close> the counter moves on and the response to \<open>A\<close>
  is dropped (\<open>later_request_supersedes\<close>, \<open>stale_response_discarded\<close>). When the
  cache answers \<open>B\<close>, \<open>filterOptionsLocally\<close> leaves \<open>requestCounter\<close> alone. The
  history evaluated here fills the cache with Apple and Banana, issues \<open>A\<close> with the
  keyword \<open>c\<close> and then \<open>B\<close> with the keyword \<open>ap\<close>: after \<open>B\<close> the hook shows Apple, and
  the response to \<open>A\<close> replaces both \<open>options\<close> and \<open>filteredOptions\<close>.
\<close>

theorem stale_response_after_local_hit:
  "run plain_env race_history =
     \<lparr>hook = \<lparr>options = [apple, banana], filteredOptions = [apple], isLoading = False,
              searchGuard = GuardEmpty, requestCounter = 2\<rparr>,
      in_flight = [keyword_request 2 ''c'' [apple, banana]]\<rparr>
   \<and> run plain_env (race_history @ [Settle 2 (Fulfilled [cherry])]) =
     \<lparr>hook = \<lparr>options = [apple, banana, cherry], filteredOptions = [cherry], isLoading = False,
              searchGuard = GuardEmpty, requestCounter = 2\<rparr>,
      in_flight = []\<rparr>"
  by code_simp

text \<open>
  Claim C2 (prefix skip), as amended. With \<open>searchGuard = {prevKeyword: K, stop: true}\<close>
  a lookup calls \<open>APIService\<close> exactly when \<open>APIService\<close> is configured, the keyword
  does not start with \<open>K\<close> and the local filter finds no match among the options of
  the calling render; the call then carries the keyword's payload. In particular
  no keyword that starts with \<open>K\<close> reaches \<open>APIService\<close>.
\<close>

theorem prefix_skip:
  assumes "searchGuard s = GuardStop K"
  shows "(snd (snd (getOptions env opts s (Some keyword))) \<noteq> None) =
           (APIService env \<and> \<not> startsWith keyword K \<and>
            filter_by_keyword env keyword opts = Inr [])
         \<and> snd (snd (getOptions env opts s (Some keyword))) \<in>
             {None,
              Some \<lparr>req_id = requestCounter s + 1, req_keyword = keyword, req_options = opts,
                    req_payload = make_payload env keyword\<rparr>}"
  using assms
  by (auto simp: getOptions_def filterOptionsLocally_def getOptionsFromAPI_def Let_def
        filter_by_keyword_def
      split: sum.splits if_splits)

text \<open>
  The amended statement at \<open>K = ab\<close>: the keyword \<open>abc\<close> calls nothing, the keyword
  \<open>x\<close>, which no cached option matches, is fetched.
\<close>

theorem prefix_skip_witness:
  "searchGuard armed_state = GuardStop ''ab''
   \<and> startsWith ''abc'' ''ab''
   \<and> snd (snd (getOptions plain_env [apple, banana] armed_state (Some ''abc''))) = None
   \<and> \<not> startsWith ''x'' ''ab''
   \<and> snd (snd (getOptions plain_env [apple, banana] armed_state (Some ''x''))) =
       Some (keyword_request 3 ''x'' [apple, banana])"
proof -
  have g: "searchGuard armed_state = GuardStop ''ab''" by (simp add: armed_state_def)
  have 1: "startsWith ''abc'' ''ab''" and 2: "\<not> startsWith ''x'' ''ab''"
    by (simp_all add: startsWith_def)
  have 3: "APIService plain_env" by (simp add: plain_env_def)
  have 4: "filter_by_keyword plain_env ''x'' [apple, banana] = Inr []" by code_simp
  have 5: "make_payload plain_env ''x'' = PayloadKeyword ''x''"
    by (simp add: make_payload_def plain_env_def)
  have 6: "requestCounter armed_state = 2" by (simp add: armed_state_def)
  have a: "snd (snd (getOptions plain_env [apple, banana] armed_state (Some ''abc''))) = None"
    using prefix_skip [OF g, of plain_env "[apple, banana]" "''abc''"] 1 by simp
  have b: "snd (snd (getOptions plain_env [apple, banana] armed_state (Some ''x''))) =
             Some (keyword_request 3 ''x'' [apple, banana])"
    using prefix_skip [OF g, of plain_env "[apple, banana]" "''x''"] 2 3 4
    by (auto simp: 5 6 keyword_request_def)
  from g 1 2 a b show ?thesis by blast
qed

text \<open>
  Claim C2 as stated fails: the guard is armed with \<open>ab\<close> after a history that
  cached Apple and Banana, the keyword \<open>b\<close> does not start with \<open>ab\<close>, and the lookup
  is answered by Banana from the cache without a call of \<open>APIService\<close>.
\<close>

theorem prefix_skip_counterexample:
  "searchGuard (hook (run plain_env armed_history)) = GuardStop ''ab''
   \<and> APIService plain_env
   \<and> \<not> startsWith ''b'' ''ab''
   \<and> getOptions plain_env (options (hook (run plain_env armed_history)))
        (hook (run plain_env armed_history)) (Some ''b'') =
       (None,
        armed_state\<lparr>filteredOptions := [banana], searchGuard := GuardEmpty\<rparr>,
        None)"
  by code_simp

text \<open>
  Claim C3 (filter after a remote result), as amended. When a response that is not
  stale holds at least one option and \<open>customDataName\<close> is configured, \<open>options\<close>
  becomes the merged, deduplicated and sorted set, \<open>filteredOptions\<close> becomes the
  options of that set (not of the raw response) whose \<open>customDataName\<close> field has
  the keyword, and \<open>searchGuard\<close> is cleared. The hypothesis that the continuation
  ends without exception excludes a \<open>TypeError\<close> of the filter.
\<close>

theorem remote_result_filters_merged_set:
  assumes "req_id r = requestCounter s" and "res \<noteq> []"
    and "getOptionsFromAPI_resume env r (Fulfilled res) s = (None, s')"
    and "customDataName env = Some n" and "n \<noteq> []"
  shows "options s' = sortArray env (unique_by_value (req_options r @ res)) \<and>
         filteredOptions s' =
           filter (\<lambda>ele. hasKeyword (get_prop ele n) (req_keyword r) = Inr True) (options s') \<and>
         searchGuard s' = GuardEmpty"
proof -
  note m = resume_merged[OF assms(1-3)]
  have o: "options s' = sortArray env (unique_by_value (req_options r @ res))"
    and g: "searchGuard s' = GuardEmpty"
    by (subst m(2), simp)+
  have "filteredOptions s' =
          filter (\<lambda>ele. hasKeyword (inspected env ele) (req_keyword r) = Inr True) (options s')"
    using m(1) unfolding o filter_by_keyword_def by (rule array_filter_Inr)
  moreover have "inspected env ele = get_prop ele n" for ele
    using assms(4,5) by (simp add: inspected_def)
  ultimately show ?thesis using o g by simp
qed

text \<open>
  The amended statement on a response with Berry before Apple.
\<close>

theorem remote_result_filters_merged_set_witness:
  "req_id (keyword_request 1 ''red'' []) = requestCounter (waiting_state 1 [])
   \<and> [berry_meta, apple_meta] \<noteq> []
   \<and> customDataName meta_env = Some ''meta'' \<and> ''meta'' \<noteq> []
   \<and> getOptionsFromAPI_resume meta_env (keyword_request 1 ''red'' [])
        (Fulfilled [berry_meta, apple_meta]) (waiting_state 1 []) =
       (None,
        \<lparr>options = [apple_meta, berry_meta], filteredOptions = [apple_meta, berry_meta],
         isLoading = False, searchGuard = GuardEmpty, requestCounter = 1\<rparr>)
   \<and> [apple_meta, berry_meta] =
       sortArray meta_env
         (unique_by_value (req_options (keyword_request 1 ''red'' []) @ [berry_meta, apple_meta]))
   \<and> [apple_meta, berry_meta] =
       filter (\<lambda>ele. hasKeyword (get_prop ele ''meta'')
                       (req_keyword (keyword_request 1 ''red'' [])) = Inr True)
         [apple_meta, berry_meta]"
proof -
  let ?s' = "\<lparr>options = [apple_meta, berry_meta], filteredOptions = [apple_meta, berry_meta],
         isLoading = False, searchGuard = GuardEmpty, requestCounter = 1\<rparr>"
  have 1: "req_id (keyword_request 1 ''red'' []) = requestCounter (waiting_state 1 [])"
    by (simp add: keyword_request_def waiting_state_def)
  have 2: "[berry_meta, apple_meta] \<noteq> []" by simp
  have 3: "getOptionsFromAPI_resume meta_env (keyword_request 1 ''red'' [])
        (Fulfilled [berry_meta, apple_meta]) (waiting_state 1 []) = (None, ?s')"
    by code_simp
  have 4: "customDataName meta_env = Some ''meta''" by (simp add: meta_env_def)
  have 5: "''meta'' \<noteq> []" by simp
  note t = remote_result_filters_merged_set [OF 1 2 3 4 5, unfolded hook_state.select_convs]
  from t 1 2 3 4 5 show ?thesis by blast
qed

text \<open>
  Claim C3 as stated fails: the filter of the raw response keeps the order of the
  response, Berry then Apple, while \<open>filteredOptions\<close> is Apple then Berry, the order
  of the sorted set.
\<close>

theorem remote_result_counterexample:
  "filter_by_keyword meta_env ''red'' [berry_meta, apple_meta] = Inr [berry_meta, apple_meta]
   \<and> getOptionsFromAPI_resume meta_env (keyword_request 1 ''red'' [])
        (Fulfilled [berry_meta, apple_meta]) (waiting_state 1 []) =
       (None,
        \<lparr>options = [apple_meta, berry_meta], filteredOptions = [apple_meta, berry_meta],
         isLoading = False, searchGuard = GuardEmpty, requestCounter = 1\<rparr>)
   \<and> [apple_meta, berry_meta] \<noteq> [berry_meta, apple_meta]"
  by code_simp

text \<open>
  Claim C4 (deduplication), as amended. After a response is merged, the keys of
  \<open>options\<close> are pairwise distinct, and for every option \<open>x\<close> of the response the
  cache holds exactly one option under the key of \<open>x\<close>: the last one of the
  response with that key, whatever earlier responses left in the cache under it.
  Two values are one key when they are the same primitive value or one and the
  same object, as \<open>Map\<close> compares them; for a value that is no object, the options
  under its key are the options with that value.
\<close>

theorem dedup_latest_wins:
  assumes "req_id r = requestCounter s" and "res \<noteq> []"
    and "getOptionsFromAPI_resume env r (Fulfilled res) s = (None, s')"
    and "x \<in> set res"
  shows "distinct (map key_of (options s')) \<and>
         filter (\<lambda>e. key_of e = key_of x) (options s') =
           [last (filter (\<lambda>e. key_of e = key_of x) res)] \<and>
         ((\<forall>a fs. value_of x \<noteq> JObj a fs) \<longrightarrow>
            filter (\<lambda>e. value_of e = value_of x) (options s') =
              [last (filter (\<lambda>e. value_of e = value_of x) res)])"
proof -
  note m = resume_merged[OF assms(1-3)]
  have o: "options s' = sortArray env (unique_by_value (req_options r @ res))"
    by (subst m(2), simp)
  have ne: "filter (\<lambda>e. key_of e = key_of x) res \<noteq> []"
    using assms(4) by (auto simp: filter_empty_conv)
  have "x \<in> set (req_options r @ res)" using assms(4) by simp
  then have "filter (\<lambda>e. key_of e = key_of x) (options s') =
               [last (filter (\<lambda>e. key_of e = key_of x) (req_options r @ res))]"
    unfolding o by (rule merged_options_entry)
  then have one: "filter (\<lambda>e. key_of e = key_of x) (options s') =
               [last (filter (\<lambda>e. key_of e = key_of x) res)]"
    using ne by simp
  have d: "distinct (map key_of (options s'))"
    unfolding o by (simp add: sortArray_def distinct_unique_by_value)
  have "filter (\<lambda>e. value_of e = value_of x) (options s') =
              [last (filter (\<lambda>e. value_of e = value_of x) res)]"
    if "\<forall>a fs. value_of x \<noteq> JObj a fs"
  proof -
    have "(\<lambda>e. key_of e = key_of x) = (\<lambda>e. value_of e = value_of x)"
      using same_key_primitive[OF that] by auto
    with one show ?thesis by simp
  qed
  with d one show ?thesis by blast
qed

text \<open>
  A second response brings Granny Smith under the value \<open>1\<close> of the cached Apple.
\<close>

theorem dedup_latest_wins_witness:
  "req_id (keyword_request 2 ''gr'' [apple, banana]) = requestCounter (waiting_state 2 [apple, banana])
   \<and> [granny] \<noteq> []
   \<and> getOptionsFromAPI_resume plain_env (keyword_request 2 ''gr'' [apple, banana])
        (Fulfilled [granny]) (waiting_state 2 [apple, banana]) =
       (None,
        \<lparr>options = [banana, granny], filteredOptions = [granny],
         isLoading = False, searchGuard = GuardEmpty, requestCounter = 2\<rparr>)
   \<and> granny \<in> set [granny] \<and> value_of granny = JNum 1 \<and> value_of apple = JNum 1
   \<and> distinct (map key_of [banana, granny])
   \<and> filter (\<lambda>e. key_of e = key_of granny) [banana, granny] =
       [last (filter (\<lambda>e. key_of e = key_of granny) [granny])]
   \<and> filter (\<lambda>e. value_of e = value_of granny) [banana, granny] =
       [last (filter (\<lambda>e. value_of e = value_of granny) [granny])]"
proof -
  let ?s' = "\<lparr>options = [banana, granny], filteredOptions = [granny],
         isLoading = False, searchGuard = GuardEmpty, requestCounter = 2\<rparr>"
  have 1: "req_id (keyword_request 2 ''gr'' [apple, banana]) =
           requestCounter (waiting_state 2 [apple, banana])"
    by (simp add: keyword_request_def waiting_state_def)
  have 2: "[granny] \<noteq> []" by simp
  have 3: "getOptionsFromAPI_resume plain_env (keyword_request 2 ''gr'' [apple, banana])
        (Fulfilled [granny]) (waiting_state 2 [apple, banana]) = (None, ?s')"
    by code_simp
  have 4: "granny \<in> set [granny]" by simp
  have 5: "value_of granny = JNum 1" by code_simp
  have 6: "value_of apple = JNum 1" by code_simp
  have 7: "\<forall>a fs. value_of granny \<noteq> JObj a fs" by (simp add: 5)
  note t = dedup_latest_wins [OF 1 2 3 4, unfolded hook_state.select_convs]
  from t 7 have "filter (\<lambda>e. value_of e = value_of granny) [banana, granny] =
       [last (filter (\<lambda>e. value_of e = value_of granny) [granny])]"
    by blast
  with t 1 2 3 4 5 6 show ?thesis by blast
qed

text \<open>
  Claim C4 as stated fails: two responses bring one option each, with two
  objects of the same content \<open>{id: 1}\<close> for value; \<open>Map\<close> compares the two objects
  by reference, and the cache keeps both options.
\<close>

theorem dedup_counterexample:
  "content (value_of boxed_first) = content (value_of boxed_second)
   \<and> options (hook (run plain_env boxed_history)) = [boxed_first, boxed_second]
   \<and> length (filter (\<lambda>e. content (value_of e) = content (value_of boxed_second))
               (options (hook (run plain_env boxed_history)))) = 2"
  by code_simp

text \<open>
  Claim C5 (sort invariant). \<open>options\<close> is to be non-descending by label after every
  update. It is as long as every option carries a label
  (\<open>labelled_options_stay_sorted\<close>). The comparator of \<open>sortArray\<close> is not an order
  on options without label (claim C8), and \<open>sortArray\<close> then leaves labelled
  options out of order: the first response of the history evaluated here holds
  \<open>w\<close>, an option without label and \<open>v\<close>; the sort sees one non-descending run
  (the option without label is equal to \<open>w\<close>, and \<open>v\<close> is after \<open>undefined\<close>), and
  \<open>options\<close> holds \<open>w\<close> before \<open>v\<close>.
\<close>

theorem unlabelled_option_breaks_order:
  "options (hook (run plain_env unlabelled_history)) = [option_w, unlabelled, option_v]
   \<and> localeCompare plain_env (label_or_empty option_w) (label_or_empty option_v) = 1
   \<and> \<not> non_descending plain_env (options (hook (run plain_env unlabelled_history)))"
  by code_simp

text \<open>
  Claim C6 (local hit), as amended. For a non-empty keyword with a case-insensitive
  substring match among the strings the filter inspects (the properties \<open>value\<close> and
  \<open>label\<close> of an option or, with \<open>customDataName\<close>, the strings of that field), no
  inspected field being \<open>null\<close>: \<open>filteredOptions\<close> becomes exactly the matching
  options, \<open>isLoading\<close> and \<open>searchGuard\<close> are cleared, and \<open>APIService\<close> is not called.
  The empty keyword is the subject of claim C10.
\<close>

theorem local_hit:
  assumes "keyword \<noteq> []"
    and "\<forall>ele\<in>set opts. inspected env ele \<noteq> JNull"
    and "\<exists>ele\<in>set opts. matches_inspected env keyword ele"
  shows "getOptions env opts s (Some keyword) =
           (None,
            s\<lparr>filteredOptions := filter (matches_inspected env keyword) opts,
              isLoading := False, searchGuard := GuardEmpty\<rparr>,
            None)"
proof -
  have "filter (matches_inspected env keyword) opts \<noteq> []"
    using assms(3) by (simp add: filter_empty_conv)
  moreover have "opts \<noteq> []" using assms(3) by auto
  ultimately show ?thesis
    using filter_by_keyword_nonempty[OF assms(1,2)]
    by (simp add: getOptions_def filterOptionsLocally_def)
qed

text \<open>
  The example of the specification: Apple and Banana cached, the keyword \<open>ap\<close>.
\<close>

theorem local_hit_witness:
  "''ap'' \<noteq> [] \<and> list_all (\<lambda>ele. inspected plain_env ele \<noteq> JNull) [apple, banana]
   \<and> list_ex (matches_inspected plain_env ''ap'') [apple, banana]
   \<and> getOptions plain_env [apple, banana] (initial_state\<lparr>options := [apple, banana]\<rparr>) (Some ''ap'') =
       (None,
        \<lparr>options = [apple, banana], filteredOptions = [apple], isLoading = False,
         searchGuard = GuardEmpty, requestCounter = 0\<rparr>,
        None)"
proof -
  have 1: "''ap'' \<noteq> []" by simp
  have 2: "\<forall>ele\<in>set [apple, banana]. inspected plain_env ele \<noteq> JNull"
    by (simp add: inspected_def plain_env_def)
  have 3: "\<exists>ele\<in>set [apple, banana]. matches_inspected plain_env ''ap'' ele"
    unfolding list_ex_iff[symmetric] by code_simp
  have 4: "filter (matches_inspected plain_env ''ap'') [apple, banana] = [apple]"
    by code_simp
  have 5: "getOptions plain_env [apple, banana] (initial_state\<lparr>options := [apple, banana]\<rparr>)
             (Some ''ap'') =
           (None,
            \<lparr>options = [apple, banana], filteredOptions = [apple], isLoading = False,
             searchGuard = GuardEmpty, requestCounter = 0\<rparr>,
            None)"
    using local_hit[OF 1 2 3, of "initial_state\<lparr>options := [apple, banana]\<rparr>"]
    unfolding 4 by (simp add: initial_state_def)
  have 6: "list_all (\<lambda>ele. inspected plain_env ele \<noteq> JNull) [apple, banana]"
    using 2 unfolding list_all_iff .
  have 7: "list_ex (matches_inspected plain_env ''ap'') [apple, banana]"
    using 3 unfolding list_ex_iff .
  from 1 5 6 7 show ?thesis by blast
qed

text \<open>
  Claim C6 as stated fails. With \<open>customDataName = meta\<close> the example of the
  specification goes to the remote source: the keyword \<open>ap\<close> has a match in the
  label of the cached Apple, but the filter inspects the field \<open>meta\<close>, which the
  options lack. Without \<open>customDataName\<close> the keyword \<open>fruit\<close> has a match in the
  string-valued field \<open>category\<close> of the cached option, which the filter does not
  inspect either. Both lookups set \<open>isLoading\<close> and call \<open>APIService\<close>.
\<close>

theorem local_hit_counterexample:
  "list_ex (matches_any_field ''ap'') [apple, banana]
   \<and> getOptions meta_env [apple, banana]
        ((waiting_state 1 [apple, banana])\<lparr>isLoading := False\<rparr>) (Some ''ap'') =
       (None, waiting_state 2 [apple, banana],
        Some (keyword_request 2 ''ap'' [apple, banana]))
   \<and> list_ex (matches_any_field ''fruit'') [fruit_apple]
   \<and> getOptions plain_env [fruit_apple] ((waiting_state 1 [fruit_apple])\<lparr>isLoading := False\<rparr>)
        (Some ''fruit'') =
       (None, waiting_state 2 [fruit_apple], Some (keyword_request 2 ''fruit'' [fruit_apple]))"
  by code_simp

text \<open>
  Claim C7 (empty-result guard). A fetch issued by a lookup with keyword \<open>K\<close> that
  resolves, not stale, to the empty array sets \<open>filteredOptions\<close> to \<open>[]\<close>, clears
  \<open>isLoading\<close> and stores \<open>{prevKeyword: K, stop: true}\<close>; nothing else changes.
\<close>

theorem empty_result_arms_guard:
  assumes "getOptions env opts s0 (Some K) = (e, s1, Some r)"
    and "req_id r = requestCounter s"
  shows "getOptionsFromAPI_resume env r (Fulfilled []) s =
           (None, s\<lparr>filteredOptions := [], isLoading := False, searchGuard := GuardStop K\<rparr>)"
  using assms(2) getOptions_issued(1)[OF assms(1)]
  by (simp add: getOptionsFromAPI_resume_def finish_request_def)

text \<open>
  The example of the specification: the keyword \<open>xyz\<close> on a fresh hook.
\<close>

theorem empty_result_arms_guard_witness:
  "getOptions plain_env [] initial_state (Some ''xyz'') =
     (None, initial_state\<lparr>isLoading := True, requestCounter := 1\<rparr>,
      Some \<lparr>req_id = 1, req_keyword = ''xyz'', req_options = [], req_payload = PayloadKeyword ''xyz''\<rparr>)
   \<and> getOptionsFromAPI_resume plain_env
        \<lparr>req_id = 1, req_keyword = ''xyz'', req_options = [], req_payload = PayloadKeyword ''xyz''\<rparr>
        (Fulfilled []) (initial_state\<lparr>isLoading := True, requestCounter := 1\<rparr>) =
     (None, \<lparr>options = [], filteredOptions = [], isLoading = False,
             searchGuard = GuardStop ''xyz'', requestCounter = 1\<rparr>)"
proof -
  have call: "getOptions plain_env [] initial_state (Some ''xyz'') =
     (None, initial_state\<lparr>isLoading := True, requestCounter := 1\<rparr>,
      Some \<lparr>req_id = 1, req_keyword = ''xyz'', req_options = [], req_payload = PayloadKeyword ''xyz''\<rparr>)"
    by (simp add: getOptions_def getOptionsFromAPI_def plain_env_def initial_state_def
        make_payload_def Let_def)
  have "req_id \<lparr>req_id = 1, req_keyword = ''xyz'', req_options = [], req_payload = PayloadKeyword ''xyz''\<rparr>
        = requestCounter (initial_state\<lparr>isLoading := True, requestCounter := 1\<rparr>)"
    by simp
  from empty_result_arms_guard [OF call this] call show ?thesis
    by (simp add: initial_state_def)
qed

text \<open>
  Claim C8 (absent labels). An absent label is to be compared as the empty string.
  The comparator guards both labels with \<open>?.\<close> and never throws, but it does not
  fall back to the empty string (\<open>comparator_on_absent_label\<close>): with the label of
  its first argument absent it returns \<open>undefined\<close>, which the sort reads as
  equal, and with the label of its second argument absent it compares the first
  label with the string \<open>undefined\<close>. Evaluated on Apple and an option without
  label: were the absent label the empty string, Apple would be after that
  option and that option before Apple; the comparator puts Apple before it and,
  asked the other way round, calls the two equal, and \<open>sortArray\<close> leaves Apple
  first.
\<close>

theorem absent_label_compared_as_undefined:
  "\<not> has_label unlabelled
   \<and> sort_order plain_env apple unlabelled = - 1
   \<and> localeCompare plain_env (label_or_empty apple) (label_or_empty unlabelled) = 1
   \<and> sort_order plain_env unlabelled apple = 0
   \<and> localeCompare plain_env (label_or_empty unlabelled) (label_or_empty apple) = - 1
   \<and> sortArray plain_env [apple, unlabelled] = [apple, unlabelled]"
  by code_simp

text \<open>
  Claim C9 (fetch rejection). A lookup that calls \<open>APIService\<close> leaves \<open>isLoading\<close>
  set and \<open>searchGuard\<close> as it was; when the call rejects, the continuation ends
  with the rejection as its exception and the state it found is the state it
  leaves.
\<close>

theorem fetch_rejection_propagates:
  assumes "getOptions env opts s0 arg = (e, s1, Some r)"
  shows "isLoading s1 \<and> searchGuard s1 = searchGuard s0 \<and>
         getOptionsFromAPI_resume env r (Rejected reason) s = (Some (FetchRejected reason), s)"
  using getOptions_issued(6,11)[OF assms]
  by (simp add: getOptionsFromAPI_resume_def)

text \<open>
  A rejected first fetch.
\<close>

theorem fetch_rejection_propagates_witness:
  "getOptions plain_env [] initial_state (Some ''xyz'') =
     (None, waiting_state 1 [], Some (keyword_request 1 ''xyz'' []))
   \<and> isLoading (waiting_state 1 [])
   \<and> searchGuard (waiting_state 1 []) = searchGuard initial_state
   \<and> getOptionsFromAPI_resume plain_env (keyword_request 1 ''xyz'' []) (Rejected (JStr ''offline''))
        (waiting_state 1 []) =
       (Some (FetchRejected (JStr ''offline'')), waiting_state 1 [])"
proof -
  have call: "getOptions plain_env [] initial_state (Some ''xyz'') =
     (None, waiting_state 1 [], Some (keyword_request 1 ''xyz'' []))"
    by code_simp
  from fetch_rejection_propagates [OF call, of "JStr ''offline''" "waiting_state 1 []"] call
  show ?thesis by simp
qed

text \<open>
  Claim C10 (empty keyword), as amended. With a non-empty cache, \<open>getOptions\<close>
  called with the empty keyword or without argument sets \<open>filteredOptions\<close> to the
  whole cache, clears \<open>isLoading\<close> and \<open>searchGuard\<close> and calls nothing, provided
  that \<open>customDataName\<close> is not configured or that the \<open>customDataName\<close> field of
  every cached option is absent or truthy.
\<close>

theorem empty_keyword_shows_all:
  assumes "opts \<noteq> []"
    and "customDataName env = None \<or>
         (\<forall>ele\<in>set opts. inspected env ele = JUndefined \<or> truthy (inspected env ele))"
    and "arg = None \<or> arg = Some []"
  shows "getOptions env opts s arg =
           (None, s\<lparr>filteredOptions := opts, isLoading := False, searchGuard := GuardEmpty\<rparr>, None)"
proof -
  have "\<forall>ele\<in>set opts. inspected env ele = JUndefined \<or> truthy (inspected env ele)"
    using assms(2) by (auto simp: inspected_plain)
  then have "filter_by_keyword env [] opts = Inr opts"
    by (rule filter_by_keyword_empty)
  then show ?thesis
    using assms(1,3) by (auto simp: getOptions_def filterOptionsLocally_def)
qed

text \<open>
  Apple and Banana cached, \<open>getOptions()\<close> called without argument.
\<close>

theorem empty_keyword_shows_all_witness:
  "[apple, banana] \<noteq> [] \<and> customDataName plain_env = None
   \<and> getOptions plain_env [apple, banana] (waiting_state 1 [apple, banana]) None =
       (None,
        \<lparr>options = [apple, banana], filteredOptions = [apple, banana], isLoading = False,
         searchGuard = GuardEmpty, requestCounter = 1\<rparr>,
        None)"
proof -
  have 1: "[apple, banana] \<noteq> []" by simp
  have 2: "customDataName plain_env = None" by (simp add: plain_env_def)
  have 3: "(None :: string option) = None \<or> (None :: string option) = Some []" by simp
  from empty_keyword_shows_all [OF 1 disjI1 [OF 2] 3, of "waiting_state 1 [apple, banana]"] 1 2
  show ?thesis by (simp add: waiting_state_def)
qed

text \<open>
  Claim C10 as stated fails: with \<open>customDataName = meta\<close> and a cached option whose
  \<open>meta\<close> is \<open>null\<close>, \<open>hasKeyword\<close> returns that \<open>null\<close>; no option matches, and the
  lookup without argument sets \<open>isLoading\<close> and calls \<open>APIService\<close>.
\<close>

theorem empty_keyword_counterexample:
  "run meta_env [CallGetOptions None, Settle 1 (Fulfilled [null_meta])] =
     \<lparr>hook = \<lparr>options = [null_meta], filteredOptions = [], isLoading = False,
              searchGuard = GuardEmpty, requestCounter = 1\<rparr>,
      in_flight = []\<rparr>
   \<and> run meta_env [CallGetOptions None, Settle 1 (Fulfilled [null_meta]), CallGetOptions None] =
     \<lparr>hook = waiting_state 2 [null_meta], in_flight = [keyword_request 2 [] [null_meta]]\<rparr>"
  by code_simp

end
